theory Spec2Isabelle
  imports Main
begin

section \<open>Strings\<close>

text \<open>
  JavaScript strings are modelled as \<^typ>\<open>string\<close>; a character stands for one code
  unit. The helpers below are the string methods the serializer calls.
\<close>

text \<open>\<^verbatim>\<open>s.startsWith(p)\<close>\<close>

fun startsWith :: "string \<Rightarrow> string \<Rightarrow> bool" where
  "startsWith [] cs = True"
| "startsWith (p # ps) [] = False"
| "startsWith (p # ps) (c # cs) = (p = c \<and> startsWith ps cs)"

text \<open>\<^verbatim>\<open>s.indexOf(p) !== -1\<close>, which is also \<^verbatim>\<open>s.includes(p)\<close>.\<close>

fun includes_str :: "string \<Rightarrow> string \<Rightarrow> bool" where
  "includes_str p [] = (p = [])"
| "includes_str p (c # cs) = (startsWith p (c # cs) \<or> includes_str p cs)"

text \<open>\<^verbatim>\<open>s.endsWith("-")\<close> for a one-character suffix.\<close>

definition endsWithChar :: "char \<Rightarrow> string \<Rightarrow> bool" where
  "endsWithChar c s = (s \<noteq> [] \<and> last s = c)"

text \<open>\<^verbatim>\<open>s.replace(/c/g, r)\<close> for a one-character pattern.\<close>

definition replaceAll :: "char \<Rightarrow> string \<Rightarrow> string \<Rightarrow> string" where
  "replaceAll c r s = concat (map (\<lambda>x. if x = c then r else [x]) s)"

text \<open>
  The class \<^verbatim>\<open>\s\<close> of a regular expression, on the code units below 256: tab, line
  feed, vertical tab, form feed, carriage return, space and the no-break space.
\<close>

definition isSpace :: "char \<Rightarrow> bool" where
  "isSpace c = (of_char c \<in> {9, 10, 11, 12, 13, 32, 160 :: nat})"

text \<open>
  Whether \<^verbatim>\<open>\S+;\<close> matches at the start of the text that follows an ampersand: some
  semicolon is preceded by one or more characters, none of them white space (the
  semicolon itself is matched by \<^verbatim>\<open>\S\<close>, so the run may hold semicolons).
\<close>

definition entityAhead :: "string \<Rightarrow> bool" where
  "entityAhead rest = (CHR '';'' \<in> set (tl (takeWhile (\<lambda>c. \<not> isSpace c) rest)))"

text \<open>\<^verbatim>\<open>s.replace(/(?!&\S+;)&/g, '&amp;')\<close>: the look-ahead reads the original text.\<close>

fun replaceAmp :: "string \<Rightarrow> string" where
  "replaceAmp [] = []"
| "replaceAmp (c # cs) =
     (if c = CHR ''&'' \<and> \<not> entityAhead cs then ''&amp;'' @ replaceAmp cs
      else c # replaceAmp cs)"

text \<open>The decimal digits of \<^verbatim>\<open>n.toString()\<close> for a non-negative integer.\<close>

definition digit :: "nat \<Rightarrow> char" where
  "digit d = ''0123456789'' ! d"

function toString :: "nat \<Rightarrow> string" where
  "toString n = (if n < 10 then [digit n] else toString (n div 10) @ [digit (n mod 10)])"
  by pat_completeness auto
termination
  by (relation "measure id") auto

declare toString.simps [simp del]

text \<open>
  \<^verbatim>\<open>n++\<close> on a JavaScript number that holds a non-negative integer: the integers up to
  2^53 are exact, and 2^53 + 1 is rounded back to 2^53, so the value stays there.
\<close>

definition increment :: "nat \<Rightarrow> nat" where
  "increment n = (if n < 2 ^ 53 then n + 1 else n)"

section \<open>Constants of the infra package\<close>

definition XML :: string where
  "XML = ''http://www.w3.org/XML/1998/namespace''"

definition XMLNS :: string where
  "XMLNS = ''http://www.w3.org/2000/xmlns/''"

definition HTML :: string where
  "HTML = ''http://www.w3.org/1999/xhtml''"

definition VoidElementNames :: "string list" where
  "VoidElementNames = [''area'', ''base'', ''basefont'', ''bgsound'', ''br'', ''col'',
     ''embed'', ''frame'', ''hr'', ''img'', ''input'', ''keygen'', ''link'', ''menuitem'',
     ''meta'', ''param'', ''source'', ''track'', ''wbr'']"

section \<open>The tree\<close>

record attr =
  aLocalName :: string
  aPrefix :: "string option"
  aNamespaceURI :: "string option"
  aValue :: string

record element =
  localName :: string
  prefix :: "string option"
  namespaceURI :: "string option"
  attributes :: "attr list"

text \<open>
  The node types of the DOM that \<^verbatim>\<open>_serializeNodeNS\<close> and \<^verbatim>\<open>_serializeNode\<close> have no
  case for.
\<close>

datatype other_kind = AttributeNode | EntityReferenceNode | EntityNode | NotationNode

datatype node =
    Element element "node list"
  | Document "node list"
  | Comment string
  | Text string
  | DocumentFragment "node list"
  | DocumentType string string string
  | ProcessingInstruction string string
  | CData string
  | OtherNode other_kind

text \<open>\<^verbatim>\<open>node.documentElement === null\<close>: no child of the document is an element.\<close>

fun isElement :: "node \<Rightarrow> bool" where
  "isElement (Element e cs) = True"
| "isElement n = False"

definition noDocumentElement :: "node list \<Rightarrow> bool" where
  "noDocumentElement cs = (filter isElement cs = [])"

section \<open>Errors, events and the writer's state\<close>

text \<open>
  The messages of the exceptions the serializer throws, one constructor each:
  \<^item> \<open>ElementLocalNameInvalid\<close>: Node local name contains invalid characters
  \<^item> \<open>ElementXmlnsPrefix\<close>: An element cannot have the 'xmlns' prefix
  \<^item> \<open>MissingDocumentElement\<close>: Missing document element
  \<^item> \<open>CommentInvalid\<close>: Comment data contains invalid characters
  \<^item> \<open>TextInvalid\<close>: Text data contains invalid characters
  \<^item> \<open>DocTypePublicIdInvalid\<close>: DocType public identifier does not match PubidChar construct
  \<^item> \<open>DocTypeSystemIdInvalid\<close>: DocType system identifier contains invalid characters
  \<^item> \<open>PITargetInvalid\<close>: Processing instruction target contains invalid characters
  \<^item> \<open>PIDataInvalid\<close>: Processing instruction data contains invalid characters
  \<^item> \<open>CDataInvalid\<close>: CDATA contains invalid characters
  \<^item> \<open>DuplicateAttributes\<close>: Element contains duplicate attributes
  \<^item> \<open>XmlnsReserved\<close>: XMLNS namespace is reserved
  \<^item> \<open>XmlnsUndeclare\<close>: Namespace prefix declarations cannot be used to undeclare a namespace
  \<^item> \<open>AttrLocalNameInvalid\<close>: Attribute local name contains invalid characters
  \<^item> \<open>AttrValueInvalid\<close>: Invalid characters in attribute value.
  \<^item> \<open>UnknownNodeType k\<close>: Unknown node type: k
\<close>

datatype message =
    ElementLocalNameInvalid
  | ElementXmlnsPrefix
  | MissingDocumentElement
  | CommentInvalid
  | TextInvalid
  | DocTypePublicIdInvalid
  | DocTypeSystemIdInvalid
  | PITargetInvalid
  | PIDataInvalid
  | CDataInvalid
  | DuplicateAttributes
  | XmlnsReserved
  | XmlnsUndeclare
  | AttrLocalNameInvalid
  | AttrValueInvalid
  | UnknownNodeType other_kind

text \<open>
  The class of a thrown exception: a plain \<^verbatim>\<open>Error\<close>, as the private methods throw, or
  the \<^verbatim>\<open>InvalidStateError\<close> that \<^verbatim>\<open>serializeNode\<close> throws in its place.
\<close>

datatype exn = Error message | InvalidStateError message

text \<open>The calls to the output sink (the overridable methods of \<^verbatim>\<open>BaseWriter\<close>).\<close>

type_synonym attr_tuple = "string option \<times> string option \<times> string \<times> string"

datatype event =
    DocTypeEv string string string
  | CommentEv string
  | TextEv string
  | InstructionEv string string
  | CDataEv string
  | BeginElement string
  | OpenTagBegin string
  | AttributesEv "attr_tuple list"
  | OpenTagEnd string bool bool
  | CloseTag string
  | EndElement string

text \<open>
  Modelled from the spec: the class \<^verbatim>\<open>NamespacePrefixMap\<close> of the dom package, which
  is not among the sources. The spec describes it as a mapping from prefix to namespace
  URI (\<open>None\<close> is the null namespace) with an overwriting \<^verbatim>\<open>set\<close>, \<^verbatim>\<open>get\<close> that prefers
  the preferred prefix and otherwise returns any prefix of the namespace, \<^verbatim>\<open>has\<close> for
  the exact pair and \<^verbatim>\<open>hasPrefix\<close> for the prefix alone. Entries are kept in the order
  they were set; where several prefixes map to the namespace, \<^verbatim>\<open>get\<close> returns the one
  set last (the choice the spec leaves open).
\<close>

type_synonym prefix_map = "(string \<times> string option) list"

definition pm_set :: "string \<Rightarrow> string option \<Rightarrow> prefix_map \<Rightarrow> prefix_map" where
  "pm_set p u m = filter (\<lambda>e. fst e \<noteq> p) m @ [(p, u)]"

definition pm_has :: "string \<Rightarrow> string option \<Rightarrow> prefix_map \<Rightarrow> bool" where
  "pm_has p u m = (map_of m p = Some u)"

definition pm_hasPrefix :: "string \<Rightarrow> prefix_map \<Rightarrow> bool" where
  "pm_hasPrefix p m = (map_of m p \<noteq> None)"

definition pm_get :: "string option \<Rightarrow> string option \<Rightarrow> prefix_map \<Rightarrow> string option" where
  "pm_get preferred u m =
     (if (case preferred of None \<Rightarrow> False | Some p \<Rightarrow> pm_has p u m) then preferred
      else (case filter (\<lambda>p. pm_has p u m) (rev (map fst m)) of
              [] \<Rightarrow> None
            | p # ps \<Rightarrow> Some p))"

text \<open>
  The state a serialization call works on:
  \<^item> \<open>events\<close>: the calls made to the output sink so far, oldest first;
  \<^item> \<open>level\<close>: the field \<^verbatim>\<open>this.level\<close>;
  \<^item> \<open>prefixIndex\<close>: the one \<^verbatim>\<open>PrefixIndex\<close> object of the call (\<^verbatim>\<open>{ value: 1 }\<close>), which
    every recursive call receives by reference;
  \<^item> \<open>heap\<close>: the \<^verbatim>\<open>NamespacePrefixMap\<close> objects allocated so far; a reference to one is
    its position in the list;
  \<^item> \<open>generated\<close>: the calls of \<^verbatim>\<open>_generatePrefix\<close> so far, oldest first, each with the
    prefix it returned, the value of the prefix index it read and the namespace it was
    called for. No operation reads this field; it is the trace the statements about
    generated prefixes are made on.
  The field \<^verbatim>\<open>this.currentNode\<close> is written but never read by the serializer and is
  left out. The prefix index is a JavaScript number that starts at 1 and is only
  incremented, so it holds an integer between 1 and 2^53 (see \<open>increment\<close>).
\<close>

record wstate =
  events :: "event list"
  level :: int
  prefixIndex :: nat
  heap :: "prefix_map list"
  generated :: "(string \<times> nat \<times> string option) list"

definition emit :: "event \<Rightarrow> wstate \<Rightarrow> wstate" where
  "emit ev s = s\<lparr>events := events s @ [ev]\<rparr>"

text \<open>Reading the map behind a reference.\<close>

definition theMap :: "wstate \<Rightarrow> nat \<Rightarrow> prefix_map" where
  "theMap s r = (if r < length (heap s) then heap s ! r else [])"

text \<open>\<^verbatim>\<open>map.set(p, u)\<close> on the object behind reference \<open>r\<close>.\<close>

definition setMap :: "nat \<Rightarrow> string \<Rightarrow> string option \<Rightarrow> wstate \<Rightarrow> wstate" where
  "setMap r p u s = s\<lparr>heap := (heap s)[r := pm_set p u (theMap s r)]\<rparr>"

text \<open>
  Modelled from the spec: \<^verbatim>\<open>prefixMap.copy()\<close> of the dom package returns a new map
  object seeded with the entries of the original.
\<close>

definition copyMap :: "nat \<Rightarrow> wstate \<Rightarrow> nat \<times> wstate" where
  "copyMap r s = (length (heap s), s\<lparr>heap := heap s @ [theMap s r]\<rparr>)"

text \<open>
  The validators of the dom package, which the serializer calls as predicates on a
  whole string.
\<close>

record validators =
  xml_isName :: "string \<Rightarrow> bool"
  xml_isLegalChar :: "string \<Rightarrow> bool"
  xml_isPubidChar :: "string \<Rightarrow> bool"

section \<open>Results\<close>

text \<open>
  A method returns the state it leaves behind together with either the exception it
  threw or its value: the sink has received the events made before a throw.
  \<open>andThen r f\<close> continues with \<open>f\<close> on the value and the state of \<open>r\<close> unless \<open>r\<close>
  threw; \<open>pure\<close> is the result of a method that touches no state.
\<close>

type_synonym 'a result = "(exn + 'a) \<times> wstate"

definition ok :: "'a \<Rightarrow> wstate \<Rightarrow> 'a result" where
  "ok v s = (Inr v, s)"

definition fail :: "message \<Rightarrow> wstate \<Rightarrow> 'a result" where
  "fail msg s = (Inl (Error msg), s)"

definition pure :: "exn + 'a \<Rightarrow> wstate \<Rightarrow> 'a result" where
  "pure r s = (r, s)"

definition andThen :: "'a result \<Rightarrow> ('a \<Rightarrow> wstate \<Rightarrow> 'b result) \<Rightarrow> 'b result" where
  "andThen r f = (case fst r of Inl x \<Rightarrow> (Inl x, snd r) | Inr v \<Rightarrow> f v (snd r))"

section \<open>Character data, document types and processing instructions\<close>

definition serializeComment :: "validators \<Rightarrow> string \<Rightarrow> bool \<Rightarrow> bool \<Rightarrow> wstate \<Rightarrow> unit result" where
  "serializeComment V data requireWellFormed noDoubleEncoding s =
     (if requireWellFormed \<and> (\<not> xml_isLegalChar V data \<or>
          includes_str ''--'' data \<or> endsWithChar CHR ''-'' data)
      then fail CommentInvalid s
      else ok () (emit (CommentEv data) s))"

definition escapeText :: "bool \<Rightarrow> string \<Rightarrow> string" where
  "escapeText noDoubleEncoding data =
     (if noDoubleEncoding
      then replaceAll CHR 0x0D ''&#xD;''
             (replaceAll CHR ''>'' ''&gt;'' (replaceAll CHR ''<'' ''&lt;'' (replaceAmp data)))
      else concat (map (\<lambda>c. if c = CHR ''&'' then ''&amp;''
                             else if c = CHR ''<'' then ''&lt;''
                             else if c = CHR ''>'' then ''&gt;''
                             else [c]) data))"

definition serializeText :: "validators \<Rightarrow> string \<Rightarrow> bool \<Rightarrow> bool \<Rightarrow> wstate \<Rightarrow> unit result" where
  "serializeText V data requireWellFormed noDoubleEncoding s =
     (if requireWellFormed \<and> \<not> xml_isLegalChar V data
      then fail TextInvalid s
      else ok () (emit (TextEv (escapeText noDoubleEncoding data)) s))"

definition serializeDocumentType ::
  "validators \<Rightarrow> string \<Rightarrow> string \<Rightarrow> string \<Rightarrow> bool \<Rightarrow> bool \<Rightarrow> wstate \<Rightarrow> unit result" where
  "serializeDocumentType V name publicId systemId requireWellFormed noDoubleEncoding s =
     (if requireWellFormed \<and> \<not> xml_isPubidChar V publicId
      then fail DocTypePublicIdInvalid s
      else if requireWellFormed \<and>
          (\<not> xml_isLegalChar V systemId \<or>
           (includes_str [CHR 0x22] systemId \<and> includes_str [CHR 0x27] systemId))
      then fail DocTypeSystemIdInvalid s
      else ok () (emit (DocTypeEv name publicId systemId) s))"

text \<open>\<^verbatim>\<open>(/^xml$/i).test(target)\<close>\<close>

definition isXmlTarget :: "string \<Rightarrow> bool" where
  "isXmlTarget t =
     (case t of
        [a, b, c] \<Rightarrow> a \<in> {CHR ''x'', CHR ''X''} \<and> b \<in> {CHR ''m'', CHR ''M''}
                     \<and> c \<in> {CHR ''l'', CHR ''L''}
      | _ \<Rightarrow> False)"

definition serializeProcessingInstruction ::
  "validators \<Rightarrow> string \<Rightarrow> string \<Rightarrow> bool \<Rightarrow> bool \<Rightarrow> wstate \<Rightarrow> unit result" where
  "serializeProcessingInstruction V target data requireWellFormed noDoubleEncoding s =
     (if requireWellFormed \<and> (includes_str '':'' target \<or> isXmlTarget target)
      then fail PITargetInvalid s
      else if requireWellFormed \<and> (\<not> xml_isLegalChar V data \<or> includes_str ''?>'' data)
      then fail PIDataInvalid s
      else ok () (emit (InstructionEv target data) s))"

definition serializeCData :: "validators \<Rightarrow> string \<Rightarrow> bool \<Rightarrow> bool \<Rightarrow> wstate \<Rightarrow> unit result" where
  "serializeCData V data requireWellFormed noDoubleEncoding s =
     (if requireWellFormed \<and> includes_str '']]>'' data
      then fail CDataInvalid s
      else ok () (emit (CDataEv data) s))"

section \<open>Attribute values\<close>

text \<open>
  \<^verbatim>\<open>_serializeAttributeValue\<close> touches no state; it returns the escaped value or throws.
\<close>

definition escapeAttributeValue :: "bool \<Rightarrow> string \<Rightarrow> string" where
  "escapeAttributeValue noDoubleEncoding v =
     (if noDoubleEncoding
      then replaceAll CHR 0x0D ''&#xD;'' (replaceAll CHR 0x0A ''&#xA;''
             (replaceAll CHR 0x09 ''&#x9;'' (replaceAll CHR 0x22 ''&quot;''
               (replaceAll CHR ''<'' ''&lt;'' (replaceAmp v)))))
      else concat (map (\<lambda>c. if c = CHR 0x22 then ''&quot;''
                             else if c = CHR ''&'' then ''&amp;''
                             else if c = CHR ''<'' then ''&lt;''
                             else if c = CHR ''>'' then ''&gt;''
                             else [c]) v))"

definition serializeAttributeValue ::
  "validators \<Rightarrow> string option \<Rightarrow> bool \<Rightarrow> bool \<Rightarrow> exn + string" where
  "serializeAttributeValue V v requireWellFormed noDoubleEncoding =
     (case v of
        None \<Rightarrow> Inr []
      | Some x \<Rightarrow>
          if requireWellFormed \<and> \<not> xml_isLegalChar V x then Inl (Error AttrValueInvalid)
          else Inr (escapeAttributeValue noDoubleEncoding x))"

section \<open>Plain objects used as dictionaries\<close>

text \<open>
  The local prefixes map of \<^verbatim>\<open>_serializeElementNS\<close> and the local name set of
  \<^verbatim>\<open>_serializeAttributes\<close> are object literals \<^verbatim>\<open>{}\<close> indexed by strings. An object
  literal inherits the properties of \<^verbatim>\<open>Object.prototype\<close>, which the operator \<^verbatim>\<open>in\<close>
  finds; an assignment to the key \<^verbatim>\<open>__proto__\<close> of a value that is not an object
  stores nothing.
\<close>

type_synonym 'v js_object = "(string \<times> 'v) list"

definition objectPrototypeKeys :: "string list" where
  "objectPrototypeKeys = [''constructor'', ''__defineGetter__'', ''__defineSetter__'',
     ''hasOwnProperty'', ''__lookupGetter__'', ''__lookupSetter__'', ''isPrototypeOf'',
     ''propertyIsEnumerable'', ''toString'', ''valueOf'', ''__proto__'', ''toLocaleString'']"

text \<open>\<^verbatim>\<open>k in obj\<close>\<close>

definition js_in :: "string \<Rightarrow> 'v js_object \<Rightarrow> bool" where
  "js_in k obj = (map_of obj k \<noteq> None \<or> k \<in> set objectPrototypeKeys)"

text \<open>\<^verbatim>\<open>obj[k] = v\<close> for a string or boolean \<open>v\<close>\<close>

definition js_put :: "string \<Rightarrow> 'v \<Rightarrow> 'v js_object \<Rightarrow> 'v js_object" where
  "js_put k v obj = (if k = ''__proto__'' then obj else (k, v) # obj)"

text \<open>
  \<^verbatim>\<open>obj[k] !== v\<close> for a string \<open>v\<close>: an inherited property is a function or an object,
  never a string.
\<close>

definition js_differs :: "string \<Rightarrow> string \<Rightarrow> string js_object \<Rightarrow> bool" where
  "js_differs k v obj = (map_of obj k \<noteq> Some v)"

text \<open>
  Modelled from the spec: the class \<^verbatim>\<open>LocalNameSet\<close> of the dom package, which is not
  among the sources: the pairs of namespace and local name seen on one element, with
  \<^verbatim>\<open>has\<close> and \<^verbatim>\<open>set\<close>.
\<close>

type_synonym local_name_set = "(string option \<times> string) list"

definition lns_has :: "string option \<Rightarrow> string \<Rightarrow> local_name_set \<Rightarrow> bool" where
  "lns_has u n l = ((u, n) \<in> set l)"

definition lns_set :: "string option \<Rightarrow> string \<Rightarrow> local_name_set \<Rightarrow> local_name_set" where
  "lns_set u n l = (u, n) # l"

section \<open>The namespace-aware path\<close>

text \<open>\<^verbatim>\<open>_generatePrefix\<close>\<close>

definition generatePrefix :: "string option \<Rightarrow> nat \<Rightarrow> wstate \<Rightarrow> string \<times> wstate" where
  "generatePrefix newNamespace prefixMap s =
     (let generatedPrefix = ''ns'' @ toString (prefixIndex s);
          s1 = s\<lparr>prefixIndex := increment (prefixIndex s),
                 generated := generated s @ [(generatedPrefix, prefixIndex s, newNamespace)]\<rparr>
      in (generatedPrefix, setMap prefixMap generatedPrefix newNamespace s1))"

text \<open>
  \<^verbatim>\<open>_recordNamespaceInformation\<close>: the loop over the attributes, with the default
  namespace attribute value found so far as an argument. It returns that value and the
  local prefixes map, and updates the map behind the reference.
\<close>

primrec recordNamespaceInformation ::
  "attr list \<Rightarrow> nat \<Rightarrow> string js_object \<Rightarrow> string option \<Rightarrow> wstate
     \<Rightarrow> (string option \<times> string js_object) \<times> wstate" where
  "recordNamespaceInformation [] m localPrefixesMap defaultNamespaceAttrValue s =
     ((defaultNamespaceAttrValue, localPrefixesMap), s)"
| "recordNamespaceInformation (a # as) m localPrefixesMap defaultNamespaceAttrValue s =
     (if aNamespaceURI a = Some XMLNS then
        (case aPrefix a of
           None \<Rightarrow> recordNamespaceInformation as m localPrefixesMap (Some (aValue a)) s
         | Some attributePrefix \<Rightarrow>
             (let prefixDefinition = aLocalName a;
                  namespaceDefinition = (if aValue a = [] then None else Some (aValue a))
              in if aValue a = XML
                 then recordNamespaceInformation as m localPrefixesMap defaultNamespaceAttrValue s
                 else if pm_has prefixDefinition namespaceDefinition (theMap s m)
                 then recordNamespaceInformation as m localPrefixesMap defaultNamespaceAttrValue s
                 else recordNamespaceInformation as m
                        (js_put prefixDefinition
                           (case namespaceDefinition of None \<Rightarrow> [] | Some d \<Rightarrow> d) localPrefixesMap)
                        defaultNamespaceAttrValue
                        (setMap m prefixDefinition namespaceDefinition s)))
      else recordNamespaceInformation as m localPrefixesMap defaultNamespaceAttrValue s)"

text \<open>
  Steps 3.6 to 3.9 of \<^verbatim>\<open>_serializeAttributesNS\<close> for one attribute, given its candidate
  prefix: the check of the local name and the tuple pushed to the result.
\<close>

definition attrTuple ::
  "validators \<Rightarrow> attr \<Rightarrow> string option \<Rightarrow> bool \<Rightarrow> bool \<Rightarrow> exn + attr_tuple list" where
  "attrTuple V a candidatePrefix requireWellFormed noDoubleEncoding =
     (if requireWellFormed \<and> (includes_str '':'' (aLocalName a) \<or>
           \<not> xml_isName V (aLocalName a) \<or>
           (aLocalName a = ''xmlns'' \<and> aNamespaceURI a = None))
      then Inl (Error AttrLocalNameInvalid)
      else (case serializeAttributeValue V (Some (aValue a)) requireWellFormed noDoubleEncoding of
              Inl x \<Rightarrow> Inl x
            | Inr v \<Rightarrow> Inr [(aNamespaceURI a, candidatePrefix, aLocalName a, v)]))"

text \<open>
  Step 3.5.3 of \<^verbatim>\<open>_serializeAttributesNS\<close>, where no prefix of the map is bound to the
  attribute's namespace: the attribute's own prefix when no map entry claims it or it is
  bound to the namespace, a generated prefix otherwise.
\<close>

definition chooseAttrPrefix :: "attr \<Rightarrow> string \<Rightarrow> nat \<Rightarrow> wstate \<Rightarrow> string \<times> wstate" where
  "chooseAttrPrefix a attributeNamespace m s =
     (case aPrefix a of
        None \<Rightarrow> generatePrefix (Some attributeNamespace) m s
      | Some ap \<Rightarrow>
          if \<not> pm_hasPrefix ap (theMap s m) \<or> pm_has ap (Some attributeNamespace) (theMap s m)
          then (ap, s)
          else generatePrefix (Some attributeNamespace) m s)"

text \<open>
  Step 3.5.2.1 of \<^verbatim>\<open>_serializeAttributesNS\<close>: whether an attribute in the XMLNS namespace
  is left out.
\<close>

definition skipDeclaration :: "attr \<Rightarrow> string js_object \<Rightarrow> bool \<Rightarrow> prefix_map \<Rightarrow> bool" where
  "skipDeclaration a localPrefixesMap ignoreNamespaceDefinitionAttribute pm =
     (aValue a = XML \<or>
      (aPrefix a = None \<and> ignoreNamespaceDefinitionAttribute) \<or>
      (aPrefix a \<noteq> None \<and>
       (\<not> js_in (aLocalName a) localPrefixesMap \<or>
        js_differs (aLocalName a) (aValue a) localPrefixesMap) \<and>
       pm_has (aLocalName a) (Some (aValue a)) pm))"

text \<open>
  Steps 3.3 to 3.9 of \<^verbatim>\<open>_serializeAttributesNS\<close> for one attribute: the tuples it pushes
  to the result (none when the loop continues with the next attribute).
\<close>

definition serializeAttrNS ::
  "validators \<Rightarrow> attr \<Rightarrow> nat \<Rightarrow> string js_object \<Rightarrow> bool \<Rightarrow> bool \<Rightarrow> bool \<Rightarrow> wstate
     \<Rightarrow> attr_tuple list result" where
  "serializeAttrNS V a m localPrefixesMap ignoreNamespaceDefinitionAttribute
       requireWellFormed noDoubleEncoding s =
     (case aNamespaceURI a of
        None \<Rightarrow> pure (attrTuple V a None requireWellFormed noDoubleEncoding) s
      | Some attributeNamespace \<Rightarrow>
          (let candidatePrefix = pm_get (aPrefix a) (Some attributeNamespace) (theMap s m) in
           if attributeNamespace = XMLNS then
             (if skipDeclaration a localPrefixesMap ignoreNamespaceDefinitionAttribute (theMap s m)
              then ok [] s
              else if requireWellFormed \<and> aValue a = XMLNS
              then fail XmlnsReserved s
              else if requireWellFormed \<and> aValue a = []
              then fail XmlnsUndeclare s
              else pure (attrTuple V a
                      (if aPrefix a = Some ''xmlns'' then Some ''xmlns'' else candidatePrefix)
                      requireWellFormed noDoubleEncoding) s)
           else if candidatePrefix = None then
             (let ps = chooseAttrPrefix a attributeNamespace m s
              in andThen (pure (serializeAttributeValue V (Some attributeNamespace)
                                  requireWellFormed noDoubleEncoding) (snd ps))
                   (\<lambda>v s1.
                 andThen (pure (attrTuple V a (Some (fst ps)) requireWellFormed noDoubleEncoding) s1)
                   (\<lambda>t s2. ok ((None, Some ''xmlns'', fst ps, v) # t) s2)))
           else pure (attrTuple V a candidatePrefix requireWellFormed noDoubleEncoding) s))"

text \<open>
  \<^verbatim>\<open>_serializeAttributesNS\<close>: the loop, with the local name set as an argument (it is
  only kept when well-formedness is required).
\<close>

primrec serializeAttributesNS ::
  "validators \<Rightarrow> attr list \<Rightarrow> nat \<Rightarrow> string js_object \<Rightarrow> bool \<Rightarrow> bool \<Rightarrow> bool
     \<Rightarrow> local_name_set \<Rightarrow> wstate \<Rightarrow> attr_tuple list result" where
  "serializeAttributesNS V [] m lpm ign rwf nde localNameSet s = ok [] s"
| "serializeAttributesNS V (a # as) m lpm ign rwf nde localNameSet s =
     (if \<not> rwf \<and> \<not> ign \<and> aNamespaceURI a = None then
        andThen (pure (serializeAttributeValue V (Some (aValue a)) rwf nde) s) (\<lambda>v s1.
        andThen (serializeAttributesNS V as m lpm ign rwf nde localNameSet s1) (\<lambda>rest s2.
        ok ((None, None, aLocalName a, v) # rest) s2))
      else if rwf \<and> lns_has (aNamespaceURI a) (aLocalName a) localNameSet
      then fail DuplicateAttributes s
      else
        andThen (serializeAttrNS V a m lpm ign rwf nde s) (\<lambda>out s1.
        andThen (serializeAttributesNS V as m lpm ign rwf nde
                   (if rwf then lns_set (aNamespaceURI a) (aLocalName a) localNameSet
                    else localNameSet) s1) (\<lambda>rest s2.
        ok (out @ rest) s2)))"

text \<open>\<^verbatim>\<open>localDefaultNamespace || null\<close>\<close>

definition orNull :: "string option \<Rightarrow> string option" where
  "orNull v = (if v = Some [] then None else v)"

text \<open>\<^verbatim>\<open>this.beginElement(qualifiedName); this.openTagBegin(qualifiedName)\<close>\<close>

definition beginTag :: "string \<Rightarrow> wstate \<Rightarrow> wstate" where
  "beginTag qualifiedName s = emit (OpenTagBegin qualifiedName) (emit (BeginElement qualifiedName) s)"

text \<open>
  Step 12.5 of \<^verbatim>\<open>_serializeElementNS\<close>: the element has a prefix and no prefix of the map
  is bound to its namespace. The prefix is replaced by a generated one when the element
  declares it itself; it is added to the map and declared.
\<close>

definition declarePrefix ::
  "validators \<Rightarrow> element \<Rightarrow> string \<Rightarrow> string option \<Rightarrow> nat \<Rightarrow> string js_object \<Rightarrow> string option
     \<Rightarrow> bool \<Rightarrow> bool \<Rightarrow> wstate \<Rightarrow> (string \<times> string option \<times> bool \<times> attr_tuple list) result" where
  "declarePrefix V e p namespace m localPrefixesMap localDefaultNamespace
       requireWellFormed noDoubleEncoding s =
     (let ps = (if js_in p localPrefixesMap then generatePrefix (namespaceURI e) m s else (p, s));
          qualifiedName = fst ps @ '':'' @ localName e
      in andThen (pure (serializeAttributeValue V (namespaceURI e) requireWellFormed noDoubleEncoding)
                    (beginTag qualifiedName (setMap m (fst ps) (namespaceURI e) (snd ps))))
           (\<lambda>v s1.
         ok (qualifiedName,
             (if localDefaultNamespace \<noteq> None then orNull localDefaultNamespace else namespace),
             False, [(None, Some ''xmlns'', fst ps, v)]) s1))"

text \<open>
  Steps 12.2 and 12.3 of \<^verbatim>\<open>_serializeElementNS\<close>: the candidate prefix of an element whose
  namespace differs from the context namespace. The preferred prefix is not retrieved
  when the element has no prefix and its namespace is the local default namespace; the
  prefix \<^verbatim>\<open>xmlns\<close> is its own candidate.
\<close>

definition elementCandidate :: "element \<Rightarrow> string option \<Rightarrow> prefix_map \<Rightarrow> string option" where
  "elementCandidate e localDefaultNamespace pm =
     (if prefix e = Some ''xmlns'' then prefix e
      else if prefix e \<noteq> None \<or> namespaceURI e \<noteq> localDefaultNamespace
      then pm_get (prefix e) (namespaceURI e) pm
      else None)"

text \<open>
  Step 12.6 of \<^verbatim>\<open>_serializeElementNS\<close>: the element has no prefix and no candidate
  prefix, and does not itself declare its namespace as the default namespace. A default
  namespace declaration is pushed to the attributes.
\<close>

definition declareDefault ::
  "validators \<Rightarrow> element \<Rightarrow> bool \<Rightarrow> bool \<Rightarrow> wstate
     \<Rightarrow> (string \<times> string option \<times> bool \<times> attr_tuple list) result" where
  "declareDefault V e requireWellFormed noDoubleEncoding s =
     andThen (pure (serializeAttributeValue V (namespaceURI e) requireWellFormed noDoubleEncoding)
                (beginTag (localName e) s))
       (\<lambda>v s1. ok (localName e, namespaceURI e, True, [(None, None, ''xmlns'', v)]) s1)"

text \<open>
  Steps 11 and 12 of \<^verbatim>\<open>_serializeElementNS\<close>: given the copied map, the local prefixes
  map and the local default namespace, the qualified name, the namespace inherited by
  the children, the ignore namespace definition attribute flag and the declaration
  pushed to the attributes. The begin events of the element are made here.
\<close>

definition resolveNameNS ::
  "validators \<Rightarrow> element \<Rightarrow> string option \<Rightarrow> nat \<Rightarrow> string js_object \<Rightarrow> string option
     \<Rightarrow> bool \<Rightarrow> bool \<Rightarrow> wstate \<Rightarrow> (string \<times> string option \<times> bool \<times> attr_tuple list) result" where
  "resolveNameNS V e namespace m localPrefixesMap localDefaultNamespace
       requireWellFormed noDoubleEncoding s =
     (if namespace = namespaceURI e then
        ok ((if namespaceURI e = Some XML then ''xml:'' @ localName e else localName e),
            namespace, localDefaultNamespace \<noteq> None, [])
           (beginTag (if namespaceURI e = Some XML then ''xml:'' @ localName e else localName e) s)
      else if prefix e = Some ''xmlns'' \<and> requireWellFormed
      then fail ElementXmlnsPrefix s
      else
        (case elementCandidate e localDefaultNamespace (theMap s m) of
           Some candidatePrefix \<Rightarrow>
             ok (candidatePrefix @ '':'' @ localName e,
                 (if localDefaultNamespace \<noteq> None \<and> localDefaultNamespace \<noteq> Some XML
                  then orNull localDefaultNamespace else namespace),
                 False, [])
                (beginTag (candidatePrefix @ '':'' @ localName e) s)
         | None \<Rightarrow>
             (case prefix e of
                Some p \<Rightarrow>
                  declarePrefix V e p namespace m localPrefixesMap localDefaultNamespace
                    requireWellFormed noDoubleEncoding s
              | None \<Rightarrow>
                  if localDefaultNamespace = None \<or>
                     (localDefaultNamespace \<noteq> None \<and> localDefaultNamespace \<noteq> namespaceURI e)
                  then declareDefault V e requireWellFormed noDoubleEncoding s
                  else ok (localName e, namespaceURI e, False, []) (beginTag (localName e) s))))"

text \<open>
  Steps 1 to 13 of \<^verbatim>\<open>_serializeElementNS\<close>: everything before the end of the open tag.
  It returns the qualified name, the namespace inherited by the children and the
  reference to the element's own copy of the prefix map.
\<close>

definition openElementNS ::
  "validators \<Rightarrow> element \<Rightarrow> string option \<Rightarrow> nat \<Rightarrow> bool \<Rightarrow> bool \<Rightarrow> wstate
     \<Rightarrow> (string \<times> string option \<times> nat) result" where
  "openElementNS V e namespace prefixMap requireWellFormed noDoubleEncoding s =
     (if requireWellFormed \<and>
         (includes_str '':'' (localName e) \<or> \<not> xml_isName V (localName e))
      then fail ElementLocalNameInvalid s
      else
        (let m = fst (copyMap prefixMap s);
             rec = recordNamespaceInformation (attributes e) m [] None (snd (copyMap prefixMap s));
             localDefaultNamespace = fst (fst rec);
             localPrefixesMap = snd (fst rec)
         in andThen (resolveNameNS V e namespace m localPrefixesMap localDefaultNamespace
                       requireWellFormed noDoubleEncoding (snd rec))
              (\<lambda>name s1.
            andThen (serializeAttributesNS V (attributes e) m localPrefixesMap
                       (fst (snd (snd name))) requireWellFormed noDoubleEncoding [] s1)
              (\<lambda>rest s2.
            ok (fst name, fst (snd name), m)
               (emit (AttributesEv (snd (snd (snd name)) @ rest)) s2)))))"

text \<open>
  Steps 14 to 17 of \<^verbatim>\<open>_serializeElementNS\<close>: whether the element is written as a void
  element of HTML, and whether its end tag is skipped.
\<close>

definition isVoid :: "element \<Rightarrow> node list \<Rightarrow> bool" where
  "isVoid e cs = (namespaceURI e = Some HTML \<and> cs = [] \<and> localName e \<in> set VoidElementNames)"

definition skipEndTag :: "element \<Rightarrow> node list \<Rightarrow> bool" where
  "skipEndTag e cs = (isVoid e cs \<or> (namespaceURI e \<noteq> Some HTML \<and> cs = []))"

text \<open>
  \<^verbatim>\<open>_serializeNodeNS\<close> with the methods it dispatches to. \<open>serializeChildrenNS\<close> is the
  loop over the children of an element (step 19 of \<^verbatim>\<open>_serializeElementNS\<close>),
  \<open>serializeNodesNS\<close> the loop of \<^verbatim>\<open>_serializeDocumentNS\<close> and
  \<^verbatim>\<open>_serializeDocumentFragmentNS\<close>.
\<close>

primrec serializeNodeNS ::
      "validators \<Rightarrow> bool \<Rightarrow> bool \<Rightarrow> node \<Rightarrow> string option \<Rightarrow> nat \<Rightarrow> wstate \<Rightarrow> unit result"
  and serializeChildrenNS ::
      "validators \<Rightarrow> bool \<Rightarrow> bool \<Rightarrow> node list \<Rightarrow> string option \<Rightarrow> nat \<Rightarrow> wstate \<Rightarrow> unit result"
  and serializeNodesNS ::
      "validators \<Rightarrow> bool \<Rightarrow> bool \<Rightarrow> node list \<Rightarrow> string option \<Rightarrow> nat \<Rightarrow> wstate \<Rightarrow> unit result"
where
  "serializeNodeNS V rwf nde (Element e cs) namespace prefixMap s =
     andThen (openElementNS V e namespace prefixMap rwf nde s)
       (\<lambda>opened s1.
          if skipEndTag e cs
          then ok () (emit (EndElement (fst opened))
                        (emit (OpenTagEnd (fst opened) True (isVoid e cs)) s1))
          else
            andThen (if namespaceURI e = Some HTML \<and> localName e = ''template''
                     then ok () (emit (OpenTagEnd (fst opened) False False) s1)
                     else serializeChildrenNS V rwf nde cs (fst (snd opened)) (snd (snd opened))
                            (emit (OpenTagEnd (fst opened) False False) s1))
              (\<lambda>u s2. ok () (emit (EndElement (fst opened)) (emit (CloseTag (fst opened)) s2))))"
| "serializeNodeNS V rwf nde (Document cs) namespace prefixMap s =
     (if rwf \<and> noDocumentElement cs then fail MissingDocumentElement s
      else serializeNodesNS V rwf nde cs namespace prefixMap s)"
| "serializeNodeNS V rwf nde (Comment d) namespace prefixMap s = serializeComment V d rwf nde s"
| "serializeNodeNS V rwf nde (Text d) namespace prefixMap s = serializeText V d rwf nde s"
| "serializeNodeNS V rwf nde (DocumentFragment cs) namespace prefixMap s =
     serializeNodesNS V rwf nde cs namespace prefixMap s"
| "serializeNodeNS V rwf nde (DocumentType n p y) namespace prefixMap s =
     serializeDocumentType V n p y rwf nde s"
| "serializeNodeNS V rwf nde (ProcessingInstruction t d) namespace prefixMap s =
     serializeProcessingInstruction V t d rwf nde s"
| "serializeNodeNS V rwf nde (CData d) namespace prefixMap s = serializeCData V d rwf nde s"
| "serializeNodeNS V rwf nde (OtherNode k) namespace prefixMap s = fail (UnknownNodeType k) s"
| "serializeChildrenNS V rwf nde [] inheritedNS m s = ok () s"
| "serializeChildrenNS V rwf nde (c # cs) inheritedNS m s =
     andThen (serializeNodeNS V rwf nde c inheritedNS m (s\<lparr>level := level s + 1\<rparr>))
       (\<lambda>u s1. serializeChildrenNS V rwf nde cs inheritedNS m (s1\<lparr>level := level s1 - 1\<rparr>))"
| "serializeNodesNS V rwf nde [] namespace prefixMap s = ok () s"
| "serializeNodesNS V rwf nde (c # cs) namespace prefixMap s =
     andThen (serializeNodeNS V rwf nde c namespace prefixMap s)
       (\<lambda>u s1. serializeNodesNS V rwf nde cs namespace prefixMap s1)"

section \<open>The path for documents without namespaces\<close>

text \<open>
  \<^verbatim>\<open>_serializeAttributes\<close>: the loop, with the local name set (an object literal) as an
  argument. It touches no state.
\<close>

primrec serializeAttributes ::
  "validators \<Rightarrow> attr list \<Rightarrow> bool \<Rightarrow> bool \<Rightarrow> bool js_object \<Rightarrow> exn + attr_tuple list" where
  "serializeAttributes V [] rwf nde localNameSet = Inr []"
| "serializeAttributes V (a # as) rwf nde localNameSet =
     (if \<not> rwf then
        (case serializeAttributeValue V (Some (aValue a)) rwf nde of
           Inl x \<Rightarrow> Inl x
         | Inr v \<Rightarrow>
             (case serializeAttributes V as rwf nde localNameSet of
                Inl x \<Rightarrow> Inl x
              | Inr rest \<Rightarrow> Inr ((None, None, aLocalName a, v) # rest)))
      else if js_in (aLocalName a) localNameSet then Inl (Error DuplicateAttributes)
      else if includes_str '':'' (aLocalName a) \<or> \<not> xml_isName V (aLocalName a)
      then Inl (Error AttrLocalNameInvalid)
      else
        (case serializeAttributeValue V (Some (aValue a)) rwf nde of
           Inl x \<Rightarrow> Inl x
         | Inr v \<Rightarrow>
             (case serializeAttributes V as rwf nde (js_put (aLocalName a) True localNameSet) of
                Inl x \<Rightarrow> Inl x
              | Inr rest \<Rightarrow> Inr ((None, None, aLocalName a, v) # rest))))"

text \<open>
  The steps of \<^verbatim>\<open>_serializeElement\<close> before the end of the open tag; the qualified name
  is the local name.
\<close>

definition openElement ::
  "validators \<Rightarrow> element \<Rightarrow> bool \<Rightarrow> bool \<Rightarrow> wstate \<Rightarrow> unit result" where
  "openElement V e requireWellFormed noDoubleEncoding s =
     (if requireWellFormed \<and>
         (includes_str '':'' (localName e) \<or> \<not> xml_isName V (localName e))
      then fail ElementLocalNameInvalid s
      else
        andThen (pure (serializeAttributes V (attributes e) requireWellFormed noDoubleEncoding [])
                   (beginTag (localName e) s))
          (\<lambda>attrs s1. ok () (emit (AttributesEv attrs) s1)))"

text \<open>
  \<^verbatim>\<open>_serializeNode\<close> (here \<open>serializeNode'\<close>) with the methods it dispatches to;
  \<open>serializeChildren\<close> is the loop over the children in \<^verbatim>\<open>_serializeElement\<close>,
  \<open>serializeNodes\<close> the loop of \<^verbatim>\<open>_serializeDocument\<close> and
  \<^verbatim>\<open>_serializeDocumentFragment\<close>.
\<close>

primrec serializeNode' ::
      "validators \<Rightarrow> bool \<Rightarrow> bool \<Rightarrow> node \<Rightarrow> wstate \<Rightarrow> unit result"
  and serializeChildren ::
      "validators \<Rightarrow> bool \<Rightarrow> bool \<Rightarrow> node list \<Rightarrow> wstate \<Rightarrow> unit result"
  and serializeNodes ::
      "validators \<Rightarrow> bool \<Rightarrow> bool \<Rightarrow> node list \<Rightarrow> wstate \<Rightarrow> unit result"
where
  "serializeNode' V rwf nde (Element e cs) s =
     andThen (openElement V e rwf nde s)
       (\<lambda>u s1.
          if cs = []
          then ok () (emit (EndElement (localName e)) (emit (OpenTagEnd (localName e) True False) s1))
          else
            andThen (serializeChildren V rwf nde cs (emit (OpenTagEnd (localName e) False False) s1))
              (\<lambda>u s2. ok () (emit (EndElement (localName e)) (emit (CloseTag (localName e)) s2))))"
| "serializeNode' V rwf nde (Document cs) s =
     (if rwf \<and> noDocumentElement cs then fail MissingDocumentElement s
      else serializeNodes V rwf nde cs s)"
| "serializeNode' V rwf nde (Comment d) s = serializeComment V d rwf nde s"
| "serializeNode' V rwf nde (Text d) s = serializeText V d rwf nde s"
| "serializeNode' V rwf nde (DocumentFragment cs) s = serializeNodes V rwf nde cs s"
| "serializeNode' V rwf nde (DocumentType n p y) s = serializeDocumentType V n p y rwf nde s"
| "serializeNode' V rwf nde (ProcessingInstruction t d) s =
     serializeProcessingInstruction V t d rwf nde s"
| "serializeNode' V rwf nde (CData d) s = serializeCData V d rwf nde s"
| "serializeNode' V rwf nde (OtherNode k) s = fail (UnknownNodeType k) s"
| "serializeChildren V rwf nde [] s = ok () s"
| "serializeChildren V rwf nde (c # cs) s =
     andThen (serializeNode' V rwf nde c (s\<lparr>level := level s + 1\<rparr>))
       (\<lambda>u s1. serializeChildren V rwf nde cs (s1\<lparr>level := level s1 - 1\<rparr>))"
| "serializeNodes V rwf nde [] s = ok () s"
| "serializeNodes V rwf nde (c # cs) s =
     andThen (serializeNode' V rwf nde c s) (\<lambda>u s1. serializeNodes V rwf nde cs s1)"

section \<open>The entry point\<close>

text \<open>\<^verbatim>\<open>try { ... } catch (e) { throw new InvalidStateError(e.message) }\<close>\<close>

fun messageOf :: "exn \<Rightarrow> message" where
  "messageOf (Error msg) = msg"
| "messageOf (InvalidStateError msg) = msg"

definition rethrow :: "'a result \<Rightarrow> 'a result" where
  "rethrow r = (case fst r of Inl x \<Rightarrow> (Inl (InvalidStateError (messageOf x)), snd r)
                | Inr v \<Rightarrow> r)"

text \<open>
  \<^verbatim>\<open>serializeNode\<close>. The flag \<open>hasNamespaces\<close> is read from the document that owns the
  node. The call resets the level and, on the namespace-aware path, creates its prefix
  map (with the prefix \<^verbatim>\<open>xml\<close>) and its prefix index; the trace of generated prefixes
  starts empty.
\<close>

definition serializeNode ::
  "validators \<Rightarrow> bool \<Rightarrow> node \<Rightarrow> bool \<Rightarrow> bool \<Rightarrow> wstate \<Rightarrow> unit result" where
  "serializeNode V hasNamespaces n requireWellFormed noDoubleEncoding s =
     (if hasNamespaces
      then rethrow (serializeNodeNS V requireWellFormed noDoubleEncoding n None 0
             (s\<lparr>level := 0, prefixIndex := 1, heap := [pm_set ''xml'' (Some XML) []],
                generated := []\<rparr>))
      else rethrow (serializeNode' V requireWellFormed noDoubleEncoding n (s\<lparr>level := 0\<rparr>)))"

text \<open>A writer that has received no events yet.\<close>

definition initial :: wstate where
  "initial = \<lparr>events = [], level = 0, prefixIndex = 1, heap = [], generated = []\<rparr>"

section \<open>Creating a processing instruction\<close>

text \<open>
  \<^verbatim>\<open>Document.createProcessingInstruction\<close>. The regular expression \<^verbatim>\<open>XMLSpec10.Name\<close> is
  not among the sources; \<open>matchesName t\<close> stands for \<^verbatim>\<open>target.match(XMLSpec10.Name)\<close>
  finding a match. The processing instruction created is the node
  \<open>ProcessingInstruction target data\<close>.
\<close>

datatype dom_error = InvalidCharacterError

definition createProcessingInstruction ::
  "(string \<Rightarrow> bool) \<Rightarrow> string \<Rightarrow> string \<Rightarrow> dom_error + node" where
  "createProcessingInstruction matchesName target data =
     (if \<not> matchesName target then Inl InvalidCharacterError
      else if \<not> includes_str ''?>'' data then Inl InvalidCharacterError
      else Inr (ProcessingInstruction target data))"

section \<open>Definitions for the statements\<close>

text \<open>
  A stand-in for the validators of the dom package on the inputs evaluated below: every
  string is a name, is made of legal characters and is a public identifier.
\<close>

definition acceptAll :: validators where
  "acceptAll = \<lparr>xml_isName = (\<lambda>x. True), xml_isLegalChar = (\<lambda>x. True),
                 xml_isPubidChar = (\<lambda>x. True)\<rparr>"

text \<open>
  The value of the prefix index after \<open>k\<close> calls of \<^verbatim>\<open>_generatePrefix\<close> in a call of
  \<^verbatim>\<open>serializeNode\<close>, which starts it at 1.
\<close>

definition indexAfter :: "nat \<Rightarrow> nat" where
  "indexAfter k = min (k + 1) (2 ^ 53)"

text \<open>
  The invariant of the trace of generated prefixes: the \<open>k\<close>-th entry (counting from 0)
  holds the index value \<open>indexAfter k\<close>, the prefix index holds the value after all
  entries, and each prefix is \<^verbatim>\<open>ns\<close> followed by the index value read.
\<close>

definition genInv :: "wstate \<Rightarrow> bool" where
  "genInv s = (prefixIndex s = indexAfter (length (generated s)) \<and>
               map (\<lambda>g. fst (snd g)) (generated s) = map indexAfter [0..<length (generated s)] \<and>
               list_all (\<lambda>g. fst g = ''ns'' @ toString (fst (snd g))) (generated s))"

text \<open>
  What the operations on one element may do to the state: they write to the one map
  behind the reference \<open>m\<close>, and keep the invariant of the trace.
\<close>

definition mapEffect :: "nat \<Rightarrow> wstate \<Rightarrow> wstate \<Rightarrow> bool" where
  "mapEffect m s s' =
     (length (heap s') = length (heap s) \<and> (\<forall>r. r \<noteq> m \<longrightarrow> heap s' ! r = heap s ! r) \<and>
      (genInv s \<longrightarrow> genInv s'))"

text \<open>
  What the serialization of a node may do to the state besides making events: it
  allocates maps, leaves every map allocated before as it was, and keeps the invariant
  of the trace.
\<close>

definition nodeEffect :: "wstate \<Rightarrow> wstate \<Rightarrow> bool" where
  "nodeEffect s s' =
     (take (length (heap s)) (heap s') = heap s \<and> (genInv s \<longrightarrow> genInv s'))"

text \<open>
  The prefixes generated within one call of \<^verbatim>\<open>serializeNode\<close> on a tree with namespaces,
  in the order they were generated, each with the value of the prefix index read and the
  namespace it was generated for.
\<close>

definition generatedBy ::
  "validators \<Rightarrow> node \<Rightarrow> bool \<Rightarrow> bool \<Rightarrow> wstate \<Rightarrow> (string \<times> nat \<times> string option) list" where
  "generatedBy V n rwf nde s = generated (snd (serializeNode V True n rwf nde s))"

text \<open>The method returned: it did not throw.\<close>

definition succeeds :: "'a result \<Rightarrow> bool" where
  "succeeds r = (case fst r of Inl x \<Rightarrow> False | Inr v \<Rightarrow> True)"

text \<open>The pair that identifies an attribute on its element.\<close>

definition attrKey :: "attr \<Rightarrow> string option \<times> string" where
  "attrKey a = (aNamespaceURI a, aLocalName a)"

text \<open>
  The attributes of the element among the tuples of an attributes event: the tuples
  that are neither in the XMLNS namespace nor a generated declaration, without their
  prefixes.
\<close>

definition ownTuples :: "attr_tuple list \<Rightarrow> (string option \<times> string \<times> string) list" where
  "ownTuples ts =
     map (\<lambda>t. (fst t, fst (snd (snd t)), snd (snd (snd t))))
       (filter (\<lambda>t. fst t \<noteq> Some XMLNS \<and> \<not> (fst t = None \<and> fst (snd t) \<noteq> None)) ts)"

text \<open>The method threw.\<close>

definition throws :: "'a result \<Rightarrow> bool" where
  "throws r = (case fst r of Inl x \<Rightarrow> True | Inr v \<Rightarrow> False)"

text \<open>
  An attribute that \<^verbatim>\<open>_recordNamespaceInformation\<close> reads as a default namespace
  declaration, and the attribute of the markup \<^verbatim>\<open>xmlns="x"\<close>.
\<close>

definition declaresDefault :: "attr \<Rightarrow> bool" where
  "declaresDefault a = (aNamespaceURI a = Some XMLNS \<and> aPrefix a = None)"

definition defaultDeclaration :: "string \<Rightarrow> attr" where
  "defaultDeclaration x =
     \<lparr>aLocalName = ''xmlns'', aPrefix = None, aNamespaceURI = Some XMLNS, aValue = x\<rparr>"

text \<open>
  One pass over a string that replaces every ampersand that does not start an entity
  reference by \<^verbatim>\<open>&amp;\<close>, keeps the other ampersands and replaces every other character
  \<open>c\<close> by \<open>f c\<close>.
\<close>

fun escapePass :: "(char \<Rightarrow> string) \<Rightarrow> string \<Rightarrow> string" where
  "escapePass f [] = []"
| "escapePass f (c # cs) =
     (if c = CHR ''&'' then (if entityAhead cs then ''&'' else ''&amp;'') else f c)
       @ escapePass f cs"

text \<open>
  A tree in which no element and no attribute carries a namespace. Where well-formedness
  is required, in addition no attribute is named \<^verbatim>\<open>xmlns\<close> or like a property of
  \<^verbatim>\<open>Object.prototype\<close>.
\<close>

definition plainAttr :: "bool \<Rightarrow> attr \<Rightarrow> bool" where
  "plainAttr rwf a =
     (aNamespaceURI a = None \<and>
      (if rwf then aLocalName a \<notin> set (''xmlns'' # objectPrototypeKeys) else True))"

primrec plain :: "bool \<Rightarrow> node \<Rightarrow> bool"
  and plains :: "bool \<Rightarrow> node list \<Rightarrow> bool" where
  "plain rwf (Element e cs) =
     (namespaceURI e = None \<and> list_all (plainAttr rwf) (attributes e) \<and> plains rwf cs)"
| "plain rwf (Document cs) = plains rwf cs"
| "plain rwf (Comment d) = True"
| "plain rwf (Text d) = True"
| "plain rwf (DocumentFragment cs) = plains rwf cs"
| "plain rwf (DocumentType n p y) = True"
| "plain rwf (ProcessingInstruction t d) = True"
| "plain rwf (CData d) = True"
| "plain rwf (OtherNode k) = True"
| "plains rwf [] = True"
| "plains rwf (c # cs) = (plain rwf c \<and> plains rwf cs)"

text \<open>Two calls end the same way and have made the same calls to the output sink.\<close>

definition sameOut :: "unit result \<Rightarrow> unit result \<Rightarrow> bool" where
  "sameOut r r' = (fst r = fst r' \<and> events (snd r) = events (snd r'))"

text \<open>
  An entry of the trace of generated prefixes is declared by a tuple of an attributes
  event when the tuple is the namespace declaration \<^verbatim>\<open>xmlns:p="u"\<close> that the serializer
  pushes for a prefix \<open>p\<close> it bound to the namespace \<open>u\<close>: no namespace, the prefix
  \<^verbatim>\<open>xmlns\<close>, the generated prefix as local name and the serialized namespace as value.
  It is declared in a list of events when some attributes event holds such a tuple.
\<close>

definition declares ::
  "validators \<Rightarrow> bool \<Rightarrow> bool \<Rightarrow> string \<times> nat \<times> string option \<Rightarrow> attr_tuple \<Rightarrow> bool" where
  "declares V rwf nde g t =
     (fst t = None \<and> fst (snd t) = Some ''xmlns'' \<and> fst (snd (snd t)) = fst g \<and>
      serializeAttributeValue V (snd (snd g)) rwf nde = Inr (snd (snd (snd t))))"

definition declaredIn ::
  "validators \<Rightarrow> bool \<Rightarrow> bool \<Rightarrow> event list \<Rightarrow> string \<times> nat \<times> string option \<Rightarrow> bool" where
  "declaredIn V rwf nde evs g =
     list_ex (\<lambda>ev. case ev of AttributesEv L \<Rightarrow> list_ex (declares V rwf nde g) L
                    | _ \<Rightarrow> False) evs"

text \<open>
  Between two states, the trace has only grown, and every new entry is declared by a
  tuple of the list \<open>L\<close> (the attributes an element is about to emit).
\<close>

definition pending ::
  "validators \<Rightarrow> bool \<Rightarrow> bool \<Rightarrow> attr_tuple list \<Rightarrow> wstate \<Rightarrow> wstate \<Rightarrow> bool" where
  "pending V rwf nde L s s' =
     (take (length (generated s)) (generated s') = generated s \<and>
      list_all (\<lambda>g. list_ex (declares V rwf nde g) L)
        (drop (length (generated s)) (generated s')))"

text \<open>Every entry of the trace is declared in the events made after the first \<open>k\<close>.\<close>

definition declInv :: "validators \<Rightarrow> bool \<Rightarrow> bool \<Rightarrow> nat \<Rightarrow> wstate \<Rightarrow> bool" where
  "declInv V rwf nde k s =
     (k \<le> length (events s) \<and>
      list_all (declaredIn V rwf nde (drop k (events s))) (generated s))"

text \<open>A property of the value and the state of a method that returned.\<close>

definition onResult :: "'a result \<Rightarrow> ('a \<Rightarrow> wstate \<Rightarrow> bool) \<Rightarrow> bool" where
  "onResult r Q = (case fst r of Inl x \<Rightarrow> True | Inr v \<Rightarrow> Q v (snd r))"

text \<open>A method that returns keeps every entry of the trace declared.\<close>

definition keepsDeclared :: "validators \<Rightarrow> bool \<Rightarrow> bool \<Rightarrow> nat \<Rightarrow> 'a result \<Rightarrow> bool" where
  "keepsDeclared V rwf nde k r = onResult r (\<lambda>v s'. declInv V rwf nde k s')"

text \<open>
  Trees for the statements about generated prefixes: three siblings, each with an
  attribute in a namespace of its own and no prefix; and an element that declares the
  prefix \<^verbatim>\<open>ns1\<close> itself and has an attribute without prefix in another namespace.
\<close>

definition threeSiblings :: node where
  "threeSiblings =
     Element \<lparr>localName = ''root'', prefix = None, namespaceURI = None, attributes = []\<rparr>
       [Element \<lparr>localName = ''a'', prefix = None, namespaceURI = None, attributes =
          [\<lparr>aLocalName = ''x'', aPrefix = None, aNamespaceURI = Some ''urn:1'', aValue = ''1''\<rparr>]\<rparr> [],
        Element \<lparr>localName = ''b'', prefix = None, namespaceURI = None, attributes =
          [\<lparr>aLocalName = ''y'', aPrefix = None, aNamespaceURI = Some ''urn:2'', aValue = ''2''\<rparr>]\<rparr> [],
        Element \<lparr>localName = ''c'', prefix = None, namespaceURI = None, attributes =
          [\<lparr>aLocalName = ''z'', aPrefix = None, aNamespaceURI = Some ''urn:3'', aValue = ''3''\<rparr>]\<rparr> []]"

definition ownNs1 :: node where
  "ownNs1 =
     Element \<lparr>localName = ''e'', prefix = None, namespaceURI = None, attributes =
       [\<lparr>aLocalName = ''ns1'', aPrefix = Some ''xmlns'', aNamespaceURI = Some XMLNS,
          aValue = ''urn:x''\<rparr>,
        \<lparr>aLocalName = ''a'', aPrefix = None, aNamespaceURI = Some ''urn:y'',
          aValue = ''v''\<rparr>]\<rparr> []"

text \<open>
  The local default namespace that \<^verbatim>\<open>_recordNamespaceInformation\<close> returns for a list of
  attributes: the value of the last default namespace declaration.
\<close>

definition localDefault :: "attr list \<Rightarrow> string option" where
  "localDefault as =
     (case filter declaresDefault as of [] \<Rightarrow> None | x # xs \<Rightarrow> Some (aValue (last (x # xs))))"

text \<open>
  The element's own copy of the prefix map once \<^verbatim>\<open>_recordNamespaceInformation\<close> has added
  the prefixes the element declares.
\<close>

definition ownMap :: "element \<Rightarrow> nat \<Rightarrow> wstate \<Rightarrow> prefix_map" where
  "ownMap e pm s =
     theMap (snd (recordNamespaceInformation (attributes e) (length (heap s)) [] None
                    (snd (copyMap pm s)))) (length (heap s))"

text \<open>
  A tuple of an attributes event with the local name \<^verbatim>\<open>xmlns\<close> that either stands for an
  attribute of the XMLNS namespace (the literal \<^verbatim>\<open>xmlns="..."\<close> of the element) or has
  no prefix (so it is written as \<^verbatim>\<open>xmlns="..."\<close>).
\<close>

definition namesDefault :: "attr_tuple \<Rightarrow> bool" where
  "namesDefault t =
     (fst (snd (snd t)) = ''xmlns'' \<and> (fst t = Some XMLNS \<or> fst (snd t) = None))"

text \<open>No prefix of the map behind the reference is bound to the XMLNS namespace.\<close>

definition noXmlnsAt :: "nat \<Rightarrow> wstate \<Rightarrow> bool" where
  "noXmlnsAt m s = (pm_get None (Some XMLNS) (theMap s m) = None)"

text \<open>
  Trees for the statements about default namespace declarations:
  \<^item> \<open>redeclared\<close>: \<^verbatim>\<open><root xmlns="urn:a"><child xmlns="urn:a"/></root>\<close>, both elements in
    the namespace \<^verbatim>\<open>urn:a\<close>;
  \<^item> \<open>xmlBare\<close>: an element \<^verbatim>\<open>foo\<close> without prefix in the XML namespace that declares the
    XML namespace as its default namespace;
  \<^item> \<open>xmlnsPrefixed\<close>: an element \<^verbatim>\<open>foo\<close> with the prefix \<^verbatim>\<open>xmlns\<close> in the namespace
    \<^verbatim>\<open>urn:y\<close>;
  \<^item> \<open>xmlnsBound\<close>: a root that binds the prefix \<^verbatim>\<open>p\<close> to the XMLNS namespace, with a
    child \<^verbatim>\<open><child xmlns="urn:a"/>\<close> in the namespace \<^verbatim>\<open>urn:a\<close>.
\<close>

definition redeclared :: node where
  "redeclared =
     Element \<lparr>localName = ''root'', prefix = None, namespaceURI = Some ''urn:a'',
               attributes = [defaultDeclaration ''urn:a'']\<rparr>
       [Element \<lparr>localName = ''child'', prefix = None, namespaceURI = Some ''urn:a'',
                  attributes = [defaultDeclaration ''urn:a'']\<rparr> []]"

definition xmlBare :: node where
  "xmlBare =
     Element \<lparr>localName = ''foo'', prefix = None, namespaceURI = Some XML,
               attributes = [defaultDeclaration XML]\<rparr> []"

definition xmlnsPrefixed :: node where
  "xmlnsPrefixed =
     Element \<lparr>localName = ''foo'', prefix = Some ''xmlns'', namespaceURI = Some ''urn:y'',
               attributes = []\<rparr> []"

definition xmlnsBound :: node where
  "xmlnsBound =
     Element \<lparr>localName = ''root'', prefix = None, namespaceURI = None,
               attributes = [\<lparr>aLocalName = ''p'', aPrefix = Some ''xmlns'',
                               aNamespaceURI = Some XMLNS, aValue = XMLNS\<rparr>]\<rparr>
       [Element \<lparr>localName = ''child'', prefix = None, namespaceURI = Some ''urn:a'',
                  attributes = [defaultDeclaration ''urn:a'']\<rparr> []]"

text \<open>
  \<open>xmlnsElement\<close>: an element \<^verbatim>\<open>foo\<close> with the prefix \<^verbatim>\<open>q\<close> in the XMLNS namespace that
  declares the XMLNS namespace as its default namespace.
\<close>

definition xmlnsElement :: node where
  "xmlnsElement =
     Element \<lparr>localName = ''foo'', prefix = Some ''q'', namespaceURI = Some XMLNS,
               attributes = [defaultDeclaration XMLNS]\<rparr> []"

section \<open>Results: basic facts\<close>

lemma andThen_Inr [simp]: "andThen (Inr v, s) f = f v s"
  and andThen_Inl [simp]: "andThen (Inl x, s) f = (Inl x, s)"
  by (simp_all add: andThen_def)

lemma andThen_ok [simp]: "andThen (ok v s) f = f v s"
  by (simp add: ok_def)

lemma andThen_fail [simp]: "andThen (fail msg s) f = fail msg s"
  by (simp add: fail_def)

lemma snd_ok [simp]: "snd (ok v s) = s"
  and fst_ok [simp]: "fst (ok v s) = Inr v"
  and snd_fail [simp]: "snd (fail msg s) = s"
  and fst_fail [simp]: "fst (fail msg s) = Inl (Error msg)"
  and snd_pure [simp]: "snd (pure r s) = s"
  and fst_pure [simp]: "fst (pure r s) = r"
  by (simp_all add: ok_def fail_def pure_def)

lemma snd_andThen:
  "P (snd r) \<Longrightarrow> (\<And>v. fst r = Inr v \<Longrightarrow> P (snd (f v (snd r)))) \<Longrightarrow> P (snd (andThen r f))"
  by (cases "fst r") (simp_all add: andThen_def)

lemma fst_andThen_Inr:
  "fst (andThen r f) = Inr y \<longleftrightarrow> (\<exists>v. fst r = Inr v \<and> fst (f v (snd r)) = Inr y)"
  by (cases "fst r") (simp_all add: andThen_def)

lemma andThen_pure_Inr [simp]: "andThen (pure (Inr v) s) f = f v s"
  and andThen_pure_Inl [simp]: "andThen (pure (Inl x) s) f = (Inl x, s)"
  by (simp_all add: pure_def)

section \<open>Effects on the state\<close>

lemma events_emit [simp]: "events (emit ev s) = events s @ [ev]"
  and level_emit [simp]: "level (emit ev s) = level s"
  and heap_emit [simp]: "heap (emit ev s) = heap s"
  and prefixIndex_emit [simp]: "prefixIndex (emit ev s) = prefixIndex s"
  and generated_emit [simp]: "generated (emit ev s) = generated s"
  by (simp_all add: emit_def)

lemma theMap_emit [simp]: "theMap (emit ev s) r = theMap s r"
  by (simp add: theMap_def)

lemma events_beginTag [simp]:
  "events (beginTag q s) = events s @ [BeginElement q, OpenTagBegin q]"
  and level_beginTag [simp]: "level (beginTag q s) = level s"
  and heap_beginTag [simp]: "heap (beginTag q s) = heap s"
  and prefixIndex_beginTag [simp]: "prefixIndex (beginTag q s) = prefixIndex s"
  and generated_beginTag [simp]: "generated (beginTag q s) = generated s"
  by (simp_all add: beginTag_def)

lemma events_setMap [simp]: "events (setMap r p u s) = events s"
  and level_setMap [simp]: "level (setMap r p u s) = level s"
  and prefixIndex_setMap [simp]: "prefixIndex (setMap r p u s) = prefixIndex s"
  and generated_setMap [simp]: "generated (setMap r p u s) = generated s"
  and length_heap_setMap [simp]: "length (heap (setMap r p u s)) = length (heap s)"
  by (simp_all add: setMap_def)

lemma heap_setMap_other: "r' \<noteq> r \<Longrightarrow> heap (setMap r p u s) ! r' = heap s ! r'"
  by (simp add: setMap_def)

lemma events_generatePrefix [simp]: "events (snd (generatePrefix u m s)) = events s"
  and level_generatePrefix [simp]: "level (snd (generatePrefix u m s)) = level s"
  and length_heap_generatePrefix [simp]:
    "length (heap (snd (generatePrefix u m s))) = length (heap s)"
  by (simp_all add: generatePrefix_def Let_def setMap_def)

lemma heap_generatePrefix_other:
  "r \<noteq> m \<Longrightarrow> heap (snd (generatePrefix u m s)) ! r = heap s ! r"
  by (auto simp add: generatePrefix_def Let_def setMap_def)

lemma increment_indexAfter: "increment (indexAfter k) = indexAfter (Suc k)"
  by (simp add: increment_def indexAfter_def min_def)

lemma genInv_generatePrefix: "genInv s \<Longrightarrow> genInv (snd (generatePrefix u m s))"
  by (simp add: genInv_def generatePrefix_def Let_def setMap_def increment_indexAfter)

lemma mapEffect_refl [simp]: "mapEffect m s s"
  by (simp add: mapEffect_def)

lemma mapEffect_emit [simp]: "mapEffect m s (emit ev s') = mapEffect m s s'"
  by (simp add: mapEffect_def genInv_def)

lemma mapEffect_beginTag [simp]: "mapEffect m s (beginTag q s') = mapEffect m s s'"
  by (simp add: beginTag_def)

lemma mapEffect_setMap: "mapEffect m s s' \<Longrightarrow> mapEffect m s (setMap m p u s')"
  by (simp add: mapEffect_def genInv_def heap_setMap_other)

lemma mapEffect_generatePrefix:
  "mapEffect m s s' \<Longrightarrow> mapEffect m s (snd (generatePrefix u m s'))"
  by (simp add: mapEffect_def genInv_generatePrefix heap_generatePrefix_other)

lemma events_andThen:
  "events (snd r) = E \<Longrightarrow> (\<And>v. fst r = Inr v \<Longrightarrow> events (snd (f v (snd r))) = E)
     \<Longrightarrow> events (snd (andThen r f)) = E"
  by (rule snd_andThen [where P = "\<lambda>s. events s = E"])

lemma mapEffect_andThen:
  "mapEffect m s0 (snd r) \<Longrightarrow> (\<And>v. fst r = Inr v \<Longrightarrow> mapEffect m s0 (snd (f v (snd r))))
     \<Longrightarrow> mapEffect m s0 (snd (andThen r f))"
  by (rule snd_andThen [where P = "mapEffect m s0"])

lemma recordNamespaceInformation_events [simp]:
  "events (snd (recordNamespaceInformation as m lpm d s)) = events s"
  by (induction as arbitrary: lpm d s) (simp_all add: Let_def split: option.splits)

lemma recordNamespaceInformation_effect:
  "mapEffect m s0 s \<Longrightarrow> mapEffect m s0 (snd (recordNamespaceInformation as m lpm d s))"
  by (induction as arbitrary: lpm d s) (simp_all add: Let_def mapEffect_setMap split: option.splits)

lemma chooseAttrPrefix_cases:
  "snd (chooseAttrPrefix a u m s) = s \<or>
   snd (chooseAttrPrefix a u m s) = snd (generatePrefix (Some u) m s)"
  by (simp add: chooseAttrPrefix_def split: option.splits)

lemma chooseAttrPrefix_events [simp]: "events (snd (chooseAttrPrefix a u m s)) = events s"
  using chooseAttrPrefix_cases [of a u m s] by auto

lemma chooseAttrPrefix_effect:
  "mapEffect m s0 s \<Longrightarrow> mapEffect m s0 (snd (chooseAttrPrefix a u m s))"
  using chooseAttrPrefix_cases [of a u m s] by (auto simp add: mapEffect_generatePrefix)

lemma serializeAttrNS_events [simp]:
  "events (snd (serializeAttrNS V a m lpm ign rwf nde s)) = events s"
  by (auto simp add: serializeAttrNS_def Let_def split: option.splits intro!: events_andThen)

lemma serializeAttrNS_effect:
  "mapEffect m s0 s \<Longrightarrow> mapEffect m s0 (snd (serializeAttrNS V a m lpm ign rwf nde s))"
  by (auto simp add: serializeAttrNS_def Let_def chooseAttrPrefix_effect
           split: option.splits intro!: mapEffect_andThen)

lemma serializeAttributesNS_events [simp]:
  "events (snd (serializeAttributesNS V as m lpm ign rwf nde L s)) = events s"
  by (induction as arbitrary: L s) (auto intro!: events_andThen)

lemma serializeAttributesNS_effect:
  "mapEffect m s0 s \<Longrightarrow> mapEffect m s0 (snd (serializeAttributesNS V as m lpm ign rwf nde L s))"
proof (induction as arbitrary: L s rwf ign)
  case Nil
  then show ?case by simp
next
  case (Cons a as)
  note IH = Cons.IH
  show ?case
    using Cons.prems by (auto intro!: mapEffect_andThen IH serializeAttrNS_effect)
qed

lemma fst_rethrow [simp]:
  "fst (rethrow r) = (case fst r of Inl x \<Rightarrow> Inl (InvalidStateError (messageOf x)) | Inr v \<Rightarrow> Inr v)"
  and snd_rethrow [simp]: "snd (rethrow r) = snd r"
  by (simp_all add: rethrow_def split: sum.splits)

lemma nodeEffect_refl [simp]: "nodeEffect s s"
  by (simp add: nodeEffect_def)

lemma nodeEffect_length: "nodeEffect s s' \<Longrightarrow> length (heap s) \<le> length (heap s')"
  by (metis nodeEffect_def length_take min.cobounded2 min.commute)

lemma nodeEffect_trans: "nodeEffect s s1 \<Longrightarrow> nodeEffect s1 s2 \<Longrightarrow> nodeEffect s s2"
proof -
  assume a: "nodeEffect s s1" and b: "nodeEffect s1 s2"
  have le: "length (heap s) \<le> length (heap s1)" using a by (rule nodeEffect_length)
  have "take (length (heap s)) (heap s2) = take (length (heap s)) (take (length (heap s1)) (heap s2))"
    using le by (simp add: min_def)
  also have "\<dots> = heap s" using a b by (simp add: nodeEffect_def)
  finally show ?thesis using a b by (simp add: nodeEffect_def)
qed

lemma nodeEffect_emit [simp]: "nodeEffect s (emit ev s') = nodeEffect s s'"
  by (simp add: nodeEffect_def genInv_def)

lemma nodeEffect_level [simp]: "nodeEffect s (s'\<lparr>level := l\<rparr>) = nodeEffect s s'"
  by (simp add: nodeEffect_def genInv_def)

lemma nodeEffect_level_left [simp]: "nodeEffect (s\<lparr>level := l\<rparr>) s' = nodeEffect s s'"
  by (simp add: nodeEffect_def genInv_def)

lemma nodeEffect_emit_left [simp]: "nodeEffect (emit ev s) s' = nodeEffect s s'"
  by (simp add: nodeEffect_def genInv_def)

lemma nodeEffect_andThen:
  "nodeEffect s0 (snd r) \<Longrightarrow> (\<And>v. fst r = Inr v \<Longrightarrow> nodeEffect s0 (snd (f v (snd r))))
     \<Longrightarrow> nodeEffect s0 (snd (andThen r f))"
  by (rule snd_andThen [where P = "nodeEffect s0"])

lemma declarePrefix_effect:
  "mapEffect m s0 s \<Longrightarrow> mapEffect m s0 (snd (declarePrefix V e p ns m lpm ldn rwf nde s))"
  by (auto simp add: declarePrefix_def Let_def mapEffect_setMap mapEffect_generatePrefix
           intro!: mapEffect_andThen)

lemma declareDefault_effect:
  "mapEffect m s0 s \<Longrightarrow> mapEffect m s0 (snd (declareDefault V e rwf nde s))"
  by (auto simp add: declareDefault_def intro!: mapEffect_andThen)

lemma resolveNameNS_effect:
  "mapEffect m s0 s \<Longrightarrow> mapEffect m s0 (snd (resolveNameNS V e ns m lpm ldn rwf nde s))"
  by (simp add: resolveNameNS_def declarePrefix_effect declareDefault_effect
           split: option.splits)

lemma genInv_copyMap [simp]: "genInv (snd (copyMap pm s)) = genInv s"
  by (simp add: genInv_def copyMap_def)

lemma mapEffect_copyMap:
  assumes "mapEffect (length (heap s)) (snd (copyMap pm s)) s'"
  shows "nodeEffect s s'"
proof -
  have len: "length (heap s') = Suc (length (heap s))"
    using assms by (simp add: mapEffect_def copyMap_def)
  have nth: "heap s' ! r = heap s ! r" if "r < length (heap s)" for r
    using assms that by (simp add: mapEffect_def copyMap_def nth_append)
  have "take (length (heap s)) (heap s') = heap s"
    by (rule nth_equalityI) (simp_all add: len nth)
  moreover have "genInv s \<longrightarrow> genInv s'"
    using assms by (simp add: mapEffect_def)
  ultimately show ?thesis by (simp add: nodeEffect_def)
qed

lemma openElementNS_effect: "nodeEffect s (snd (openElementNS V e ns pm rwf nde s))"
proof (cases "rwf \<and> (includes_str '':'' (localName e) \<or> \<not> xml_isName V (localName e))")
  case True
  then show ?thesis by (simp add: openElementNS_def)
next
  case False
  have "mapEffect (length (heap s)) (snd (copyMap pm s)) (snd (openElementNS V e ns pm rwf nde s))"
    using False
    by (auto simp add: openElementNS_def Let_def copyMap_def
             intro!: mapEffect_andThen resolveNameNS_effect recordNamespaceInformation_effect
                     serializeAttributesNS_effect)
  then show ?thesis by (rule mapEffect_copyMap)
qed

lemma nodeEffect_step:
  "nodeEffect s0 s \<Longrightarrow> nodeEffect s (snd (f s)) \<Longrightarrow> nodeEffect s0 (snd (f s))"
  by (rule nodeEffect_trans)

lemma leaf_effects:
  "nodeEffect s0 s \<Longrightarrow> nodeEffect s0 (snd (serializeComment V d rwf nde s))"
  "nodeEffect s0 s \<Longrightarrow> nodeEffect s0 (snd (serializeText V d rwf nde s))"
  "nodeEffect s0 s \<Longrightarrow> nodeEffect s0 (snd (serializeDocumentType V n p y rwf nde s))"
  "nodeEffect s0 s \<Longrightarrow> nodeEffect s0 (snd (serializeProcessingInstruction V t d rwf nde s))"
  "nodeEffect s0 s \<Longrightarrow> nodeEffect s0 (snd (serializeCData V d rwf nde s))"
  by (simp_all add: serializeComment_def serializeText_def serializeDocumentType_def
        serializeProcessingInstruction_def serializeCData_def)

lemma serializeChildrenNS_effect:
  assumes "\<And>c ns m s0 s. c \<in> set cs \<Longrightarrow> nodeEffect s0 s
             \<Longrightarrow> nodeEffect s0 (snd (serializeNodeNS V rwf nde c ns m s))"
  shows "nodeEffect s0 s \<Longrightarrow> nodeEffect s0 (snd (serializeChildrenNS V rwf nde cs ns m s))"
  using assms
proof (induction cs arbitrary: s)
  case Nil
  then show ?case by simp
next
  case (Cons c cs)
  show ?case
    using Cons.prems(1)
    by (auto intro!: nodeEffect_andThen Cons.prems(2) Cons.IH)
qed

lemma serializeNodesNS_effect:
  assumes "\<And>c ns m s0 s. c \<in> set cs \<Longrightarrow> nodeEffect s0 s
             \<Longrightarrow> nodeEffect s0 (snd (serializeNodeNS V rwf nde c ns m s))"
  shows "nodeEffect s0 s \<Longrightarrow> nodeEffect s0 (snd (serializeNodesNS V rwf nde cs ns m s))"
  using assms
proof (induction cs arbitrary: s)
  case Nil
  then show ?case by simp
next
  case (Cons c cs)
  show ?case
    using Cons.prems(1)
    by (auto intro!: nodeEffect_andThen Cons.prems(2) Cons.IH)
qed

lemma serializeNodeNS_effect:
  "nodeEffect s0 s \<Longrightarrow> nodeEffect s0 (snd (serializeNodeNS V rwf nde n ns m s))"
proof (induction n arbitrary: ns m s0 s)
  case (Element e cs)
  have opened: "nodeEffect s0 (snd (openElementNS V e ns m rwf nde s))"
    using Element.prems openElementNS_effect by (rule nodeEffect_trans)
  show ?case
    using opened
    by (auto intro!: nodeEffect_andThen serializeChildrenNS_effect Element.IH)
next
  case (Document cs)
  then show ?case by (auto intro!: serializeNodesNS_effect)
next
  case (DocumentFragment cs)
  then show ?case by (auto intro!: serializeNodesNS_effect)
qed (simp_all add: leaf_effects)

section \<open>Decimal numerals\<close>

lemma digit_inj: "a < 10 \<Longrightarrow> b < 10 \<Longrightarrow> digit a = digit b \<Longrightarrow> a = b"
proof -
  assume a: "a < 10" and b: "b < 10" and e: "digit a = digit b"
  have d: "distinct ''0123456789''" by simp
  have "a < length ''0123456789''" "b < length ''0123456789''" using a b by simp_all
  then show "a = b" using d e unfolding digit_def by (simp only: nth_eq_iff_index_eq)
qed

lemma toString_nonempty: "toString n \<noteq> []"
  by (subst toString.simps) simp

lemma toString_inj: "toString m = toString n \<Longrightarrow> m = n"
proof (induction m arbitrary: n rule: toString.induct)
  case (1 m)
  show ?case
  proof (cases "m < 10")
    case True
    then have m: "toString m = [digit m]" by (subst toString.simps) simp
    show ?thesis
    proof (cases "n < 10")
      case n: True
      then have "toString n = [digit n]" by (subst toString.simps) simp
      then show ?thesis using m "1.prems" True n by (simp add: digit_inj)
    next
      case n: False
      then have "toString n = toString (n div 10) @ [digit (n mod 10)]"
        by (subst toString.simps) simp
      then show ?thesis using m "1.prems" toString_nonempty [of "n div 10"] by simp
    qed
  next
    case False
    then have m: "toString m = toString (m div 10) @ [digit (m mod 10)]"
      by (subst toString.simps) simp
    show ?thesis
    proof (cases "n < 10")
      case n: True
      then have "toString n = [digit n]" by (subst toString.simps) simp
      then show ?thesis using m "1.prems" toString_nonempty [of "m div 10"] by simp
    next
      case n: False
      then have "toString n = toString (n div 10) @ [digit (n mod 10)]"
        by (subst toString.simps) simp
      then have "toString (m div 10) = toString (n div 10)" and "digit (m mod 10) = digit (n mod 10)"
        using m "1.prems" by simp_all
      then have "m div 10 = n div 10" and "m mod 10 = n mod 10"
        using "1.IH" [OF False] by (simp_all add: digit_inj)
      then show ?thesis by (metis div_mult_mod_eq)
    qed
  qed
qed

section \<open>Generated prefixes\<close>

lemma indexAfter_upt: "n \<le> 2 ^ 53 \<Longrightarrow> map indexAfter [0..<n] = [1..<Suc n]"
proof -
  assume n: "n \<le> 2 ^ 53"
  have "map indexAfter [0..<n] = map Suc [0..<n]"
    using n by (intro map_cong) (simp_all add: indexAfter_def min_def)
  then show ?thesis by (simp add: map_Suc_upt)
qed

lemma genInv_distinct:
  "genInv s \<Longrightarrow> length (generated s) \<le> 2 ^ 53 \<Longrightarrow> distinct (map fst (generated s))"
proof -
  assume g: "genInv s" and n: "length (generated s) \<le> 2 ^ 53"
  have "map (\<lambda>g. fst (snd g)) (generated s) = [1..<Suc (length (generated s))]"
    using g indexAfter_upt [OF n] by (simp add: genInv_def)
  then have idx: "distinct (map (\<lambda>g. fst (snd g)) (generated s))"
    by (simp only: distinct_upt)
  have nm: "\<forall>g \<in> set (generated s). fst g = ''ns'' @ toString (fst (snd g))"
    using g by (simp add: genInv_def list_all_iff)
  have "inj_on fst (set (generated s))"
  proof (rule inj_onI)
    fix a b assume a: "a \<in> set (generated s)" and b: "b \<in> set (generated s)" and e: "fst a = fst b"
    then have "toString (fst (snd a)) = toString (fst (snd b))" using nm by simp
    then have "fst (snd a) = fst (snd b)" by (rule toString_inj)
    moreover have "inj_on (\<lambda>g. fst (snd g)) (set (generated s))"
      using idx by (simp add: distinct_map)
    ultimately show "a = b" using a b by (simp add: inj_on_def)
  qed
  moreover have "distinct (generated s)" using idx by (rule distinct_map [THEN iffD1, THEN conjunct1])
  ultimately show ?thesis by (simp add: distinct_map)
qed

lemma genInv_start:
  "genInv (s\<lparr>level := 0, prefixIndex := 1, heap := h, generated := []\<rparr>)"
  by (simp add: genInv_def indexAfter_def)

lemma serializeNode_genInv: "genInv (snd (serializeNode V True n rwf nde s))"
proof -
  let ?s0 = "s\<lparr>level := 0, prefixIndex := 1, heap := [pm_set ''xml'' (Some XML) []], generated := []\<rparr>"
  have "nodeEffect ?s0 (snd (serializeNodeNS V rwf nde n None 0 ?s0))"
    by (rule serializeNodeNS_effect) simp
  then show ?thesis using genInv_start [where s = s and h = "[pm_set ''xml'' (Some XML) []]"] by (simp add: serializeNode_def nodeEffect_def)
qed

section \<open>Evaluating concrete inputs\<close>

text \<open>
  The definitions unfolded to evaluate a serialization on a concrete tree; a result is
  evaluated before the continuation that receives it.
\<close>

lemma andThen_weak_cong: "r = r' \<Longrightarrow> andThen r f = andThen r' f"
  by simp

lemmas eval_defs = generatedBy_def increment_def serializeNode_def acceptAll_def initial_def openElementNS_def
  resolveNameNS_def declarePrefix_def declareDefault_def elementCandidate_def serializeAttrNS_def chooseAttrPrefix_def generatePrefix_def
  attrTuple_def serializeAttributeValue_def escapeAttributeValue_def copyMap_def theMap_def
  setMap_def pm_get_def pm_set_def pm_has_def pm_hasPrefix_def skipEndTag_def isVoid_def
  skipDeclaration_def js_in_def js_put_def js_differs_def lns_has_def lns_set_def orNull_def
  openElement_def serializeComment_def serializeText_def serializeCData_def
  serializeProcessingInstruction_def serializeDocumentType_def noDocumentElement_def
  objectPrototypeKeys_def VoidElementNames_def XML_def XMLNS_def HTML_def Let_def
  toString.simps digit_def endsWithChar_def escapeText_def replaceAll_def

section \<open>Events of an element\<close>

lemma andThen_eq: "fst r = Inr v \<Longrightarrow> andThen r f = f v (snd r)"
  by (simp add: andThen_def)

lemma andThen_InrE:
  assumes "fst (andThen r f) = Inr y"
  obtains v where "fst r = Inr v" and "andThen r f = f v (snd r)"
  using assms by (cases "fst r") (simp_all add: andThen_def)

lemma declarePrefix_events:
  "fst (declarePrefix V e p ns m lpm ldn rwf nde s) = Inr name \<Longrightarrow>
     events (snd (declarePrefix V e p ns m lpm ldn rwf nde s))
       = events s @ [BeginElement (fst name), OpenTagBegin (fst name)]"
  by (cases "serializeAttributeValue V (namespaceURI e) rwf nde")
     (simp_all add: declarePrefix_def Let_def ok_def del: fst_ok snd_ok, auto)

lemma declareDefault_events:
  "fst (declareDefault V e rwf nde s) = Inr name \<Longrightarrow>
     events (snd (declareDefault V e rwf nde s))
       = events s @ [BeginElement (fst name), OpenTagBegin (fst name)]"
  by (cases "serializeAttributeValue V (namespaceURI e) rwf nde")
     (simp_all add: declareDefault_def ok_def del: fst_ok snd_ok, auto)

text \<open>The branches of \<open>resolveNameNS\<close>.\<close>

lemma resolveNameNS_same:
  "ns = namespaceURI e \<Longrightarrow>
     resolveNameNS V e ns m lpm ldn rwf nde s =
       ok ((if namespaceURI e = Some XML then ''xml:'' @ localName e else localName e),
           ns, ldn \<noteq> None, [])
          (beginTag (if namespaceURI e = Some XML then ''xml:'' @ localName e else localName e) s)"
  by (auto simp add: resolveNameNS_def)

lemma resolveNameNS_xmlns:
  "ns \<noteq> namespaceURI e \<Longrightarrow> prefix e = Some ''xmlns'' \<Longrightarrow> rwf \<Longrightarrow>
     resolveNameNS V e ns m lpm ldn rwf nde s = fail ElementXmlnsPrefix s"
  by (auto simp add: resolveNameNS_def)

lemma resolveNameNS_candidate:
  "ns \<noteq> namespaceURI e \<Longrightarrow> \<not> (prefix e = Some ''xmlns'' \<and> rwf) \<Longrightarrow>
   elementCandidate e ldn (theMap s m) = Some cp \<Longrightarrow>
     resolveNameNS V e ns m lpm ldn rwf nde s =
       ok (cp @ '':'' @ localName e,
           (if ldn \<noteq> None \<and> ldn \<noteq> Some XML then orNull ldn else ns), False, [])
          (beginTag (cp @ '':'' @ localName e) s)"
  by (auto simp add: resolveNameNS_def)

lemma resolveNameNS_prefix:
  "ns \<noteq> namespaceURI e \<Longrightarrow> \<not> (prefix e = Some ''xmlns'' \<and> rwf) \<Longrightarrow>
   elementCandidate e ldn (theMap s m) = None \<Longrightarrow> prefix e = Some p \<Longrightarrow>
     resolveNameNS V e ns m lpm ldn rwf nde s = declarePrefix V e p ns m lpm ldn rwf nde s"
  by (auto simp add: resolveNameNS_def)

lemma resolveNameNS_default:
  "ns \<noteq> namespaceURI e \<Longrightarrow> elementCandidate e ldn (theMap s m) = None \<Longrightarrow>
   prefix e = None \<Longrightarrow> ldn = None \<or> ldn \<noteq> namespaceURI e \<Longrightarrow>
     resolveNameNS V e ns m lpm ldn rwf nde s = declareDefault V e rwf nde s"
  by (auto simp add: resolveNameNS_def)

lemma resolveNameNS_declared:
  "ns \<noteq> namespaceURI e \<Longrightarrow> elementCandidate e ldn (theMap s m) = None \<Longrightarrow>
   prefix e = None \<Longrightarrow> ldn \<noteq> None \<Longrightarrow> ldn = namespaceURI e \<Longrightarrow>
     resolveNameNS V e ns m lpm ldn rwf nde s =
       ok (localName e, namespaceURI e, False, []) (beginTag (localName e) s)"
  by (auto simp add: resolveNameNS_def)

text \<open>Every call of \<open>resolveNameNS\<close> takes one of the branches.\<close>

lemma resolveNameNS_cases:
  obtains
    (same) "ns = namespaceURI e"
  | (xmlns) "ns \<noteq> namespaceURI e" "prefix e = Some ''xmlns''" "rwf"
  | (candidate) cp where "ns \<noteq> namespaceURI e" "\<not> (prefix e = Some ''xmlns'' \<and> rwf)"
      "elementCandidate e ldn pm = Some cp"
  | (prefix) p where "ns \<noteq> namespaceURI e" "\<not> (prefix e = Some ''xmlns'' \<and> rwf)"
      "elementCandidate e ldn pm = None" "prefix e = Some p" "p \<noteq> ''xmlns''"
  | (default) "ns \<noteq> namespaceURI e" "elementCandidate e ldn pm = None" "prefix e = None"
      "ldn = None \<or> ldn \<noteq> namespaceURI e"
  | (declared) "ns \<noteq> namespaceURI e" "elementCandidate e ldn pm = None" "prefix e = None"
      "ldn \<noteq> None" "ldn = namespaceURI e"
proof (cases "ns = namespaceURI e")
  case True
  then show ?thesis by (rule same)
next
  case differs: False
  show ?thesis
  proof (cases "prefix e = Some ''xmlns'' \<and> rwf")
    case True
    then show ?thesis using differs xmlns by blast
  next
    case lenient: False
    show ?thesis
    proof (cases "elementCandidate e ldn pm")
      case (Some cp)
      then show ?thesis using differs lenient candidate by blast
    next
      case None
      show ?thesis
      proof (cases "prefix e")
        case (Some p)
        have "p \<noteq> ''xmlns''" using None Some by (auto simp add: elementCandidate_def)
        then show ?thesis using differs lenient None Some prefix by blast
      next
        case noprefix: None
        show ?thesis
          using differs None noprefix default declared by blast
      qed
    qed
  qed
qed

lemma resolveNameNS_events:
  assumes "fst (resolveNameNS V e ns m lpm ldn rwf nde s) = Inr name"
  shows "events (snd (resolveNameNS V e ns m lpm ldn rwf nde s))
       = events s @ [BeginElement (fst name), OpenTagBegin (fst name)]"
proof (cases rule: resolveNameNS_cases [where ns = ns and e = e and rwf = rwf and ldn = ldn and pm = "theMap s m"])
  case same
  then show ?thesis using assms by (auto simp add: resolveNameNS_same)
next
  case xmlns
  then show ?thesis using assms by (simp add: resolveNameNS_xmlns)
next
  case (candidate cp)
  then show ?thesis using assms by (auto simp add: resolveNameNS_candidate)
next
  case (prefix p)
  then show ?thesis using assms by (simp add: resolveNameNS_prefix declarePrefix_events)
next
  case default
  then show ?thesis using assms by (simp add: resolveNameNS_default declareDefault_events)
next
  case declared
  then show ?thesis using assms by (auto simp add: resolveNameNS_declared)
qed

lemma events_copyMap [simp]: "events (snd (copyMap pm s)) = events s"
  by (simp add: copyMap_def)

text \<open>What \<open>openElementNS\<close> returns and leaves behind when it does not throw.\<close>

lemma openElementNS_Inr:
  assumes "fst (openElementNS V e ns pm rwf nde s) = Inr opened"
  obtains name rest s2 where
    "fst (resolveNameNS V e ns (length (heap s))
            (snd (fst (recordNamespaceInformation (attributes e) (length (heap s)) [] None
                         (snd (copyMap pm s)))))
            (fst (fst (recordNamespaceInformation (attributes e) (length (heap s)) [] None
                         (snd (copyMap pm s)))))
            rwf nde
            (snd (recordNamespaceInformation (attributes e) (length (heap s)) [] None
                    (snd (copyMap pm s))))) = Inr name"
    and "opened = (fst name, fst (snd name), length (heap s))"
    and "events s2 = events s @ [BeginElement (fst name), OpenTagBegin (fst name)]"
    and "snd (openElementNS V e ns pm rwf nde s)
           = emit (AttributesEv (snd (snd (snd name)) @ rest)) s2"
    and "fst (serializeAttributesNS V (attributes e) (length (heap s))
            (snd (fst (recordNamespaceInformation (attributes e) (length (heap s)) [] None
                         (snd (copyMap pm s)))))
            (fst (snd (snd name))) rwf nde []
            (snd (resolveNameNS V e ns (length (heap s))
                   (snd (fst (recordNamespaceInformation (attributes e) (length (heap s)) [] None
                                (snd (copyMap pm s)))))
                   (fst (fst (recordNamespaceInformation (attributes e) (length (heap s)) [] None
                                (snd (copyMap pm s)))))
                   rwf nde
                   (snd (recordNamespaceInformation (attributes e) (length (heap s)) [] None
                           (snd (copyMap pm s))))))) = Inr rest"
    and "s2 = snd (serializeAttributesNS V (attributes e) (length (heap s))
            (snd (fst (recordNamespaceInformation (attributes e) (length (heap s)) [] None
                         (snd (copyMap pm s)))))
            (fst (snd (snd name))) rwf nde []
            (snd (resolveNameNS V e ns (length (heap s))
                   (snd (fst (recordNamespaceInformation (attributes e) (length (heap s)) [] None
                                (snd (copyMap pm s)))))
                   (fst (fst (recordNamespaceInformation (attributes e) (length (heap s)) [] None
                                (snd (copyMap pm s)))))
                   rwf nde
                   (snd (recordNamespaceInformation (attributes e) (length (heap s)) [] None
                           (snd (copyMap pm s)))))))"
proof -
  let ?m = "length (heap s)"
  let ?rec = "recordNamespaceInformation (attributes e) ?m [] None (snd (copyMap pm s))"
  let ?res = "resolveNameNS V e ns ?m (snd (fst ?rec)) (fst (fst ?rec)) rwf nde (snd ?rec)"
  have valid: "\<not> (rwf \<and> (includes_str '':'' (localName e) \<or> \<not> xml_isName V (localName e)))"
    using assms by (cases "rwf \<and> (includes_str '':'' (localName e) \<or> \<not> xml_isName V (localName e))")
      (simp_all add: openElementNS_def)
  have m: "fst (copyMap pm s) = ?m" by (simp add: copyMap_def)
  have unfolded: "openElementNS V e ns pm rwf nde s =
      andThen ?res (\<lambda>name s1.
        andThen (serializeAttributesNS V (attributes e) ?m (snd (fst ?rec))
                   (fst (snd (snd name))) rwf nde [] s1)
          (\<lambda>rest s2. ok (fst name, fst (snd name), ?m)
                         (emit (AttributesEv (snd (snd (snd name)) @ rest)) s2)))"
    by (simp only: openElementNS_def Let_def m if_not_P [OF valid])
  from assms obtain name where name: "fst ?res = Inr name"
    and step1: "openElementNS V e ns pm rwf nde s =
        andThen (serializeAttributesNS V (attributes e) ?m (snd (fst ?rec))
                   (fst (snd (snd name))) rwf nde [] (snd ?res))
          (\<lambda>rest s2. ok (fst name, fst (snd name), ?m)
                         (emit (AttributesEv (snd (snd (snd name)) @ rest)) s2))"
    unfolding unfolded by (rule andThen_InrE)
  let ?att = "serializeAttributesNS V (attributes e) ?m (snd (fst ?rec))
                (fst (snd (snd name))) rwf nde [] (snd ?res)"
  from assms obtain rest where rest: "fst ?att = Inr rest"
    and step2: "openElementNS V e ns pm rwf nde s =
        ok (fst name, fst (snd name), ?m) (emit (AttributesEv (snd (snd (snd name)) @ rest)) (snd ?att))"
    unfolding step1 by (rule andThen_InrE)
  have ev: "events (snd ?att) = events s @ [BeginElement (fst name), OpenTagBegin (fst name)]"
    using resolveNameNS_events [OF name] by simp
  show ?thesis
    using that [OF name _ ev _ rest refl] assms step2 by simp
qed

lemma openElementNS_events:
  assumes "fst (openElementNS V e ns pm rwf nde s) = Inr opened"
  shows "\<exists>attrs. events (snd (openElementNS V e ns pm rwf nde s))
           = events s @ [BeginElement (fst opened), OpenTagBegin (fst opened), AttributesEv attrs]"
  using assms by (rule openElementNS_Inr) simp

section \<open>Serialization without the well-formedness checks\<close>

lemma succeeds_andThen:
  "succeeds r \<Longrightarrow> (\<And>v. fst r = Inr v \<Longrightarrow> succeeds (f v (snd r)))
     \<Longrightarrow> succeeds (andThen r f)"
  by (cases "fst r") (simp_all add: andThen_def succeeds_def)

lemma succeeds_ok [simp]: "succeeds (ok v s)"
  and succeeds_pure [simp]: "succeeds (pure (Inr v) s)"
  by (simp_all add: succeeds_def)

lemma succeeds_unit: "succeeds (r :: unit result) \<Longrightarrow> fst r = Inr ()"
  by (cases "fst r") (simp_all add: succeeds_def)

lemma serializeAttributeValue_lenient:
  "serializeAttributeValue V v False nde
     = Inr (case v of None \<Rightarrow> [] | Some x \<Rightarrow> escapeAttributeValue nde x)"
  by (simp add: serializeAttributeValue_def split: option.splits)

lemma attrTuple_lenient:
  "attrTuple V a cp False nde
     = Inr [(aNamespaceURI a, cp, aLocalName a, escapeAttributeValue nde (aValue a))]"
  by (simp add: attrTuple_def serializeAttributeValue_lenient)

lemma serializeAttrNS_lenient: "succeeds (serializeAttrNS V a m lpm ign False nde s)"
  by (simp add: serializeAttrNS_def Let_def attrTuple_lenient serializeAttributeValue_lenient
        split: option.splits)

lemma serializeAttributesNS_lenient:
  "succeeds (serializeAttributesNS V as m lpm ign False nde L s)"
proof (induction as arbitrary: L s ign)
  case Nil
  show ?case by simp
next
  case (Cons a as)
  note IH = Cons.IH
  show ?case
    by (auto simp add: serializeAttributeValue_lenient
             intro!: succeeds_andThen IH serializeAttrNS_lenient)
qed

lemma declarePrefix_lenient: "succeeds (declarePrefix V e p ns m lpm ldn False nde s)"
  by (simp add: declarePrefix_def Let_def serializeAttributeValue_lenient)

lemma declareDefault_lenient: "succeeds (declareDefault V e False nde s)"
  by (simp add: declareDefault_def serializeAttributeValue_lenient)

lemma resolveNameNS_lenient: "succeeds (resolveNameNS V e ns m lpm ldn False nde s)"
  by (simp add: resolveNameNS_def declarePrefix_lenient declareDefault_lenient
        split: option.splits)

lemma openElementNS_lenient: "succeeds (openElementNS V e ns pm False nde s)"
  by (auto simp add: openElementNS_def Let_def
           intro!: succeeds_andThen resolveNameNS_lenient serializeAttributesNS_lenient)

lemma serializeAttributes_lenient:
  "serializeAttributes V as False nde L
     = Inr (map (\<lambda>a. (None, None, aLocalName a, escapeAttributeValue nde (aValue a))) as)"
  by (induction as) (simp_all add: serializeAttributeValue_lenient)

lemma openElement_lenient:
  "openElement V e False nde s
     = ok () (emit (AttributesEv (map (\<lambda>a. (None, None, aLocalName a,
                  escapeAttributeValue nde (aValue a))) (attributes e))) (beginTag (localName e) s))"
  by (simp add: openElement_def serializeAttributes_lenient)


lemma openElement_events:
  "fst (openElement V e rwf nde s) = Inr u \<Longrightarrow>
     \<exists>attrs. events (snd (openElement V e rwf nde s))
       = events s @ [BeginElement (localName e), OpenTagBegin (localName e), AttributesEv attrs]"
  by (cases "serializeAttributes V (attributes e) rwf nde []")
     (auto simp add: openElement_def split: if_splits)

lemma serializeNodeNS_leaf:
  "namespaceURI e \<noteq> Some HTML \<Longrightarrow>
     serializeNodeNS V rwf nde (Element e []) ns pm s =
       andThen (openElementNS V e ns pm rwf nde s)
         (\<lambda>opened s1. ok () (emit (EndElement (fst opened))
                                (emit (OpenTagEnd (fst opened) True False) s1)))"
  by (simp add: skipEndTag_def isVoid_def)

lemma serializeNode'_leaf:
  "serializeNode' V rwf nde (Element e []) s =
     andThen (openElement V e rwf nde s)
       (\<lambda>u s1. ok () (emit (EndElement (localName e))
                         (emit (OpenTagEnd (localName e) True False) s1)))"
  by simp

section \<open>Duplicate attributes\<close>

lemma serializeAttributesNS_duplicate:
  "attrKey a \<in> set (map attrKey pre) \<union> set L \<Longrightarrow>
     serializeAttributesNS V (pre @ a # post) m lpm ign True nde L s =
       andThen (serializeAttributesNS V pre m lpm ign True nde L s)
         (\<lambda>r s1. fail DuplicateAttributes s1)"
proof (induction pre arbitrary: L s)
  case Nil
  then show ?case by (simp add: lns_has_def attrKey_def)
next
  case (Cons x xs)
  show ?case
  proof (cases "lns_has (aNamespaceURI x) (aLocalName x) L")
    case True
    then show ?thesis by simp
  next
    case False
    have "attrKey a \<in> set (map attrKey xs) \<union> set (lns_set (aNamespaceURI x) (aLocalName x) L)"
      using Cons.prems by (auto simp add: lns_set_def attrKey_def)
    then have IH: "serializeAttributesNS V (xs @ a # post) m lpm ign True nde
                     (lns_set (aNamespaceURI x) (aLocalName x) L) s' =
       andThen (serializeAttributesNS V xs m lpm ign True nde
                  (lns_set (aNamespaceURI x) (aLocalName x) L) s')
         (\<lambda>r s1. fail DuplicateAttributes s1)" for s'
      by (rule Cons.IH)
    show ?thesis
      using False
      by (simp add: IH) (simp add: andThen_def fail_def ok_def split: sum.splits)
  qed
qed


lemma js_in_put_same: "js_in k (js_put k v L)"
  by (simp add: js_in_def js_put_def objectPrototypeKeys_def)

lemma js_in_put_other: "js_in k L \<Longrightarrow> js_in k (js_put k' v L)"
  by (simp add: js_in_def js_put_def)

lemma serializeAttributes_duplicate:
  "aLocalName a \<in> set (map aLocalName pre) \<or> js_in (aLocalName a) L \<Longrightarrow>
     serializeAttributes V (pre @ a # post) True nde L =
       (case serializeAttributes V pre True nde L of
          Inl x \<Rightarrow> Inl x
        | Inr r \<Rightarrow> Inl (Error DuplicateAttributes))"
proof (induction pre arbitrary: L)
  case Nil
  then show ?case by simp
next
  case (Cons x xs)
  have "aLocalName a \<in> set (map aLocalName xs) \<or> js_in (aLocalName a) (js_put (aLocalName x) True L)"
    using Cons.prems by (auto simp add: js_in_put_same js_in_put_other)
  then have IH: "serializeAttributes V (xs @ a # post) True nde (js_put (aLocalName x) True L) =
       (case serializeAttributes V xs True nde (js_put (aLocalName x) True L) of
          Inl x \<Rightarrow> Inl x
        | Inr r \<Rightarrow> Inl (Error DuplicateAttributes))"
    by (rule Cons.IH)
  show ?case by (simp add: IH split: sum.splits)
qed

lemma ownTuples_append [simp]: "ownTuples (xs @ ys) = ownTuples xs @ ownTuples ys"
  by (simp add: ownTuples_def)

lemma ownTuples_Nil [simp]: "ownTuples [] = []"
  by (simp add: ownTuples_def)

lemma serializeAttrNS_lenient_tuples:
  "\<exists>out. fst (serializeAttrNS V a m lpm ign False nde s) = Inr out \<and>
         ownTuples out =
           (if aNamespaceURI a \<noteq> Some XMLNS
            then [(aNamespaceURI a, aLocalName a, escapeAttributeValue nde (aValue a))] else [])"
  by (auto simp add: serializeAttrNS_def Let_def attrTuple_lenient serializeAttributeValue_lenient
        ownTuples_def split: option.splits)

text \<open>
  Without the well-formedness checks, the branch of \<open>serializeAttributesNS\<close> for the common
  case does what the general branch does.
\<close>

lemma serializeAttrNS_plain:
  "aNamespaceURI a = None \<Longrightarrow>
     serializeAttrNS V a m lpm ign False nde s
       = ok [(None, None, aLocalName a, escapeAttributeValue nde (aValue a))] s"
  by (simp add: serializeAttrNS_def attrTuple_lenient pure_def ok_def)

lemma serializeAttributesNS_Cons_lenient:
  "serializeAttributesNS V (a # as) m lpm ign False nde L s =
     andThen (serializeAttrNS V a m lpm ign False nde s) (\<lambda>out s1.
     andThen (serializeAttributesNS V as m lpm ign False nde L s1) (\<lambda>rest s2.
     ok (out @ rest) s2))"
  by (simp add: serializeAttrNS_plain serializeAttributeValue_lenient)

lemma serializeAttributesNS_lenient_tuples:
  "\<exists>res. fst (serializeAttributesNS V as m lpm ign False nde L s) = Inr res \<and>
         ownTuples res =
           map (\<lambda>a. (aNamespaceURI a, aLocalName a, escapeAttributeValue nde (aValue a)))
             (filter (\<lambda>a. aNamespaceURI a \<noteq> Some XMLNS) as)"
proof (induction as arbitrary: s)
  case Nil
  show ?case by simp
next
  case (Cons a as)
  obtain out where out: "fst (serializeAttrNS V a m lpm ign False nde s) = Inr out"
    and own: "ownTuples out =
           (if aNamespaceURI a \<noteq> Some XMLNS
            then [(aNamespaceURI a, aLocalName a, escapeAttributeValue nde (aValue a))] else [])"
    using serializeAttrNS_lenient_tuples by blast
  obtain res where res: "fst (serializeAttributesNS V as m lpm ign False nde L
                                  (snd (serializeAttrNS V a m lpm ign False nde s))) = Inr res"
    and own2: "ownTuples res =
           map (\<lambda>a. (aNamespaceURI a, aLocalName a, escapeAttributeValue nde (aValue a)))
             (filter (\<lambda>a. aNamespaceURI a \<noteq> Some XMLNS) as)"
    using Cons.IH by blast
  have "serializeAttributesNS V (a # as) m lpm ign False nde L s
          = ok (out @ res) (snd (serializeAttributesNS V as m lpm ign False nde L
                                  (snd (serializeAttrNS V a m lpm ign False nde s))))"
    unfolding serializeAttributesNS_Cons_lenient andThen_eq [OF out] andThen_eq [OF res] ..
  then show ?case using own own2 by simp
qed

lemma throws_andThen:
  "(\<And>v. fst r = Inr v \<Longrightarrow> throws (f v (snd r))) \<Longrightarrow> throws (andThen r f)"
  by (cases "fst r") (simp_all add: andThen_def throws_def)

lemma throws_andThen_first: "throws r \<Longrightarrow> throws (andThen r f)"
  by (cases "fst r") (simp_all add: andThen_def throws_def)

lemma throws_fail [simp]: "throws (fail msg s)"
  and throws_pure_Inl [simp]: "throws (pure (Inl x) s)"
  by (simp_all add: throws_def)

lemma throws_rethrow:
  "throws r \<Longrightarrow> \<exists>msg. fst (rethrow r) = Inl (InvalidStateError msg)"
  by (cases "fst r") (simp_all add: throws_def)

lemma serializeAttributesNS_duplicate_throws:
  "attrKey a \<in> set (map attrKey pre) \<Longrightarrow>
     throws (serializeAttributesNS V (pre @ a # post) m lpm ign True nde [] s)"
  by (simp add: serializeAttributesNS_duplicate throws_andThen)

lemma openElementNS_duplicate:
  assumes "attributes e = pre @ a # post" and "attrKey a \<in> set (map attrKey pre)"
  shows "throws (openElementNS V e ns pm True nde s)"
proof (cases "includes_str '':'' (localName e) \<or> \<not> xml_isName V (localName e)")
  case True
  then show ?thesis by (simp add: openElementNS_def)
next
  case False
  have loop: "throws (serializeAttributesNS V (attributes e) m lpm ign True nde [] s1)"
    for m lpm ign s1
    unfolding assms(1) using assms(2) by (rule serializeAttributesNS_duplicate_throws)
  show ?thesis
    using False
    by (simp add: openElementNS_def Let_def)
       (intro throws_andThen throws_andThen_first loop)
qed

lemma serializeAttributes_duplicate_throws:
  assumes "attrKey a \<in> set (map attrKey pre)"
  shows "\<exists>x. serializeAttributes V (pre @ a # post) True nde [] = Inl x"
proof -
  have "aLocalName a \<in> set (map aLocalName pre)"
    using assms by (auto simp add: attrKey_def)
  then show ?thesis
    by (simp add: serializeAttributes_duplicate split: sum.splits)
qed

lemma openElement_duplicate:
  assumes "attributes e = pre @ a # post" and "attrKey a \<in> set (map attrKey pre)"
  shows "throws (openElement V e True nde s)"
proof -
  obtain x where "serializeAttributes V (pre @ a # post) True nde [] = Inl x"
    using serializeAttributes_duplicate_throws [OF assms(2)] by blast
  then show ?thesis using assms(1) by (simp add: openElement_def throws_def pure_def)
qed

lemma serializeNode_duplicate:
  assumes "attributes e = pre @ a # post" and "attrKey a \<in> set (map attrKey pre)"
  shows "\<exists>msg. fst (serializeNode V hasNamespaces (Element e cs) True nde s)
           = Inl (InvalidStateError msg)"
proof (cases hasNamespaces)
  case True
  have "throws (serializeNodeNS V True nde (Element e cs) ns pm s1)" for ns pm s1
    by (simp only: serializeNodeNS.simps)
       (rule throws_andThen_first, rule openElementNS_duplicate [OF assms])
  then have "\<exists>msg. fst (rethrow (serializeNodeNS V True nde (Element e cs) ns pm s1))
               = Inl (InvalidStateError msg)" for ns pm s1
    by (rule throws_rethrow)
  then show ?thesis
    using True by (simp add: serializeNode_def del: fst_rethrow serializeNodeNS.simps)
next
  case False
  have "throws (serializeNode' V True nde (Element e cs) s1)" for s1
    by (simp only: serializeNode'.simps)
       (rule throws_andThen_first, rule openElement_duplicate [OF assms])
  then have "\<exists>msg. fst (rethrow (serializeNode' V True nde (Element e cs) s1))
               = Inl (InvalidStateError msg)" for s1
    by (rule throws_rethrow)
  then show ?thesis
    using False by (simp add: serializeNode_def del: fst_rethrow serializeNode'.simps)
qed


section \<open>Default namespace declarations\<close>

lemma recordNamespaceInformation_step:
  "declaresDefault a \<Longrightarrow>
     recordNamespaceInformation (a # as) m lpm d0 s
       = recordNamespaceInformation as m lpm (Some (aValue a)) s"
  "\<not> declaresDefault a \<Longrightarrow>
     \<exists>lpm' s'. recordNamespaceInformation (a # as) m lpm d0 s
       = recordNamespaceInformation as m lpm' d0 s'"
  by (auto simp add: declaresDefault_def Let_def split: option.splits)

lemma recordNamespaceInformation_default:
  "fst (fst (recordNamespaceInformation as m lpm d0 s)) =
     (case filter declaresDefault as of [] \<Rightarrow> d0 | x # xs \<Rightarrow> Some (aValue (last (x # xs))))"
proof (induction as arbitrary: lpm d0 s)
  case Nil
  show ?case by simp
next
  case (Cons a as)
  show ?case
  proof (cases "declaresDefault a")
    case True
    show ?thesis
      unfolding recordNamespaceInformation_step(1) [OF True] Cons.IH
      using True by (cases "filter declaresDefault as") simp_all
  next
    case False
    from recordNamespaceInformation_step(2) [OF False] obtain lpm' s' where
      "recordNamespaceInformation (a # as) m lpm d0 s
         = recordNamespaceInformation as m lpm' d0 s'" by blast
    then show ?thesis using False by (simp add: Cons.IH del: recordNamespaceInformation.simps)
  qed
qed

lemma declarePrefix_Inr:
  assumes "fst (declarePrefix V e p ns m lpm ldn rwf nde s) = Inr name"
  obtains p' v where "fst name = p' @ '':'' @ localName e"
    and "snd (snd (snd name)) = [(None, Some ''xmlns'', p', v)]"
    and "fst (snd (snd name)) = False"
    and "serializeAttributeValue V (namespaceURI e) rwf nde = Inr v"
  using assms
  by (cases "serializeAttributeValue V (namespaceURI e) rwf nde")
     (auto simp add: declarePrefix_def Let_def)

lemma declareDefault_Inr:
  assumes "fst (declareDefault V e rwf nde s) = Inr name"
  obtains v where "fst name = localName e"
    and "snd (snd (snd name)) = [(None, None, ''xmlns'', v)]"
    and "serializeAttributeValue V (namespaceURI e) rwf nde = Inr v"
  using assms
  by (cases "serializeAttributeValue V (namespaceURI e) rwf nde")
     (auto simp add: declareDefault_def)

lemma filter_singleton_sub:
  assumes "filter Q xs = [d]" and "\<And>x. P x \<Longrightarrow> Q x"
  shows "filter P xs = (if P d then [d] else [])"
proof -
  have "filter P xs = filter P (filter Q xs)"
    using assms(2) by (auto intro: filter_cong)
  then show ?thesis using assms(1) by simp
qed


section \<open>Escaping in one pass\<close>

lemma replaceAmp_pass: "replaceAmp s = escapePass (\<lambda>c. [c]) s"
  by (induction s) simp_all

lemma replaceAll_append: "replaceAll c r (xs @ ys) = replaceAll c r xs @ replaceAll c r ys"
  by (simp add: replaceAll_def)

lemma replaceAll_pass_general:
  "c \<noteq> CHR ''&'' \<Longrightarrow> c \<notin> set ''amp;'' \<Longrightarrow>
     replaceAll c r (escapePass f s) = escapePass (\<lambda>x. replaceAll c r (f x)) s"
proof (induction s)
  case Nil
  show ?case by (simp add: replaceAll_def)
next
  case (Cons x xs)
  have amp: "replaceAll c r ''&amp;'' = ''&amp;''" "replaceAll c r ''&'' = ''&''"
    using Cons.prems by (auto simp add: replaceAll_def)
  show ?case
    using Cons.IH [OF Cons.prems] amp by (simp add: replaceAll_append)
qed

lemma replaceAll_pass:
  "replaceAll CHR ''<'' r (escapePass f s) = escapePass (\<lambda>x. replaceAll CHR ''<'' r (f x)) s"
  "replaceAll CHR ''>'' r (escapePass f s) = escapePass (\<lambda>x. replaceAll CHR ''>'' r (f x)) s"
  "replaceAll CHR 0x22 r (escapePass f s) = escapePass (\<lambda>x. replaceAll CHR 0x22 r (f x)) s"
  "replaceAll CHR 0x09 r (escapePass f s) = escapePass (\<lambda>x. replaceAll CHR 0x09 r (f x)) s"
  "replaceAll CHR 0x0A r (escapePass f s) = escapePass (\<lambda>x. replaceAll CHR 0x0A r (f x)) s"
  "replaceAll CHR 0x0D r (escapePass f s) = escapePass (\<lambda>x. replaceAll CHR 0x0D r (f x)) s"
  by (rule replaceAll_pass_general; simp)+


section \<open>The two paths on trees without namespaces\<close>

lemma sameOut_andThen:
  assumes r: "sameOut r r'"
    and f: "\<And>v t t'. events t = events t' \<Longrightarrow> sameOut (f v t) (f' v t')"
  shows "sameOut (andThen r f) (andThen r' f')"
proof (cases "fst r")
  case (Inl x)
  then have "fst r' = Inl x" using r by (simp add: sameOut_def)
  then show ?thesis using Inl r by (simp add: sameOut_def andThen_def)
next
  case (Inr v)
  then have "fst r' = Inr v" using r by (simp add: sameOut_def)
  then show ?thesis
    using Inr r f [of "snd r" "snd r'" v] by (simp add: sameOut_def andThen_def)
qed

lemma sameOut_ok: "events t = events t' \<Longrightarrow> sameOut (ok v t) (ok v t')"
  by (simp add: sameOut_def)

lemma sameOut_fail: "events t = events t' \<Longrightarrow> sameOut (fail msg t) (fail msg t')"
  by (simp add: sameOut_def fail_def)

lemma sameOut_rethrow:
  assumes r: "sameOut r r'"
  shows "sameOut (rethrow r) (rethrow r')"
proof (cases "fst r")
  case (Inl x)
  then have "fst r' = Inl x" using r by (simp add: sameOut_def)
  then show ?thesis using Inl r by (simp add: sameOut_def rethrow_def)
next
  case (Inr v)
  then have "fst r' = Inr v" using r by (simp add: sameOut_def)
  then show ?thesis using Inr r by (simp add: sameOut_def rethrow_def)
qed

lemma sameOut_leaves:
  "events s = events s' \<Longrightarrow> sameOut (serializeComment V d rwf nde s) (serializeComment V d rwf nde s')"
  "events s = events s' \<Longrightarrow> sameOut (serializeText V d rwf nde s) (serializeText V d rwf nde s')"
  "events s = events s' \<Longrightarrow>
     sameOut (serializeDocumentType V n p y rwf nde s) (serializeDocumentType V n p y rwf nde s')"
  "events s = events s' \<Longrightarrow>
     sameOut (serializeProcessingInstruction V t d rwf nde s)
             (serializeProcessingInstruction V t d rwf nde s')"
  "events s = events s' \<Longrightarrow> sameOut (serializeCData V d rwf nde s) (serializeCData V d rwf nde s')"
  by (auto simp add: serializeComment_def serializeText_def serializeDocumentType_def
        serializeProcessingInstruction_def serializeCData_def sameOut_ok sameOut_fail)

lemma plainAttr_namespace: "plainAttr rwf a \<Longrightarrow> aNamespaceURI a = None"
  by (simp add: plainAttr_def)

lemma recordNamespaceInformation_plain:
  "list_all (plainAttr rwf) as \<Longrightarrow> recordNamespaceInformation as m lpm d s = ((d, lpm), s)"
proof (induction as)
  case Nil
  show ?case by simp
next
  case (Cons a as)
  then have pa: "plainAttr rwf a" and as: "list_all (plainAttr rwf) as"
    by simp_all
  from pa have "aNamespaceURI a = None" by (rule plainAttr_namespace)
  then show ?case using Cons.IH [OF as] by simp
qed

lemma serializeAttributesNS_plain:
  "list_all (plainAttr rwf) as \<Longrightarrow>
   (\<And>ln. lns_has None ln L = (map_of L' ln \<noteq> None)) \<Longrightarrow>
     serializeAttributesNS V as m lpm False rwf nde L s
       = pure (serializeAttributes V as rwf nde L') s"
proof (induction as arbitrary: L L' s)
  case Nil
  show ?case by (simp add: ok_def pure_def)
next
  case (Cons a as)
  have pa: "plainAttr rwf a" and as: "list_all (plainAttr rwf) as"
    using Cons.prems(1) by simp_all
  have a: "aNamespaceURI a = None" using pa by (rule plainAttr_namespace)
  show ?case
  proof (cases rwf)
    case False
    have rest: "serializeAttributesNS V as m lpm False False nde L t
                  = pure (serializeAttributes V as False nde L') t" for t
      using Cons.IH [OF as Cons.prems(2), of t] False by simp
    show ?thesis
      using False a
      by (cases "serializeAttributeValue V (Some (aValue a)) False nde";
          cases "serializeAttributes V as False nde L'")
         (simp_all add: rest andThen_def pure_def ok_def)
  next
    case True
    have name: "aLocalName a \<notin> set objectPrototypeKeys" "aLocalName a \<noteq> ''xmlns''"
      using pa True by (simp_all add: plainAttr_def)
    have dup: "lns_has None (aLocalName a) L = js_in (aLocalName a) L'"
      using Cons.prems(2) name(1) by (simp add: js_in_def)
    have proto: "aLocalName a \<noteq> ''__proto__''"
      using name(1) by (auto simp add: objectPrototypeKeys_def)
    have rel: "lns_has None ln (lns_set None (aLocalName a) L)
                 = (map_of (js_put (aLocalName a) True L') ln \<noteq> None)" for ln
      using Cons.prems(2) [of ln] proto by (auto simp add: lns_has_def lns_set_def js_put_def)
    have rest: "serializeAttributesNS V as m lpm False True nde (lns_set None (aLocalName a) L) t
                  = pure (serializeAttributes V as True nde (js_put (aLocalName a) True L')) t" for t
      using Cons.IH [OF as rel, of t] True by simp
    have one: "serializeAttrNS V a m lpm False True nde s = pure (attrTuple V a None True nde) s"
      using a by (simp add: serializeAttrNS_def)
    show ?thesis
    proof (cases "js_in (aLocalName a) L'")
      case dupl: True
      then show ?thesis using True a dup by (simp add: fail_def pure_def)
    next
      case nodup: False
      show ?thesis
        using True a dup nodup name(2)
        by (cases "serializeAttributeValue V (Some (aValue a)) True nde";
            cases "serializeAttributes V as True nde (js_put (aLocalName a) True L')")
           (simp_all add: rest one attrTuple_def andThen_def pure_def ok_def)
    qed
  qed
qed

lemma openElementNS_plain:
  assumes "namespaceURI e = None" and "list_all (plainAttr rwf) (attributes e)"
  shows "openElementNS V e None pm rwf nde s =
     (if rwf \<and> (includes_str '':'' (localName e) \<or> \<not> xml_isName V (localName e))
      then fail ElementLocalNameInvalid s
      else andThen (pure (serializeAttributes V (attributes e) rwf nde [])
                      (beginTag (localName e) (snd (copyMap pm s))))
             (\<lambda>attrs s1. ok (localName e, None, length (heap s))
                             (emit (AttributesEv attrs) s1)))"
proof -
  have same: "None = namespaceURI e" using assms(1) by simp
  have xml: "namespaceURI e \<noteq> Some XML" using assms(1) by simp
  have loop: "serializeAttributesNS V (attributes e) m [] False rwf nde [] t
                = pure (serializeAttributes V (attributes e) rwf nde []) t" for m t
    using assms(2) by (rule serializeAttributesNS_plain) (simp add: lns_has_def)
  show ?thesis
  proof (cases "rwf \<and> (includes_str '':'' (localName e) \<or> \<not> xml_isName V (localName e))")
    case True
    then show ?thesis by (simp add: openElementNS_def)
  next
    case False
    show ?thesis
      unfolding openElementNS_def if_not_P [OF False]
      by (simp add: Let_def recordNamespaceInformation_plain [OF assms(2)]
            resolveNameNS_same [OF same] xml loop copyMap_def)
  qed
qed


lemma serializeChildren_agree:
  assumes "\<And>c m t t'. c \<in> set cs \<Longrightarrow> plain rwf c \<Longrightarrow> events t = events t' \<Longrightarrow>
             sameOut (serializeNodeNS V rwf nde c None m t) (serializeNode' V rwf nde c t')"
  shows "plains rwf cs \<Longrightarrow> events s = events s' \<Longrightarrow>
           sameOut (serializeChildrenNS V rwf nde cs None m s) (serializeChildren V rwf nde cs s')"
  using assms
proof (induction cs arbitrary: s s')
  case Nil
  then show ?case by (simp add: sameOut_ok)
next
  case (Cons c cs)
  have c: "plain rwf c" and cs: "plains rwf cs" using Cons.prems(1) by simp_all
  have first: "sameOut (serializeNodeNS V rwf nde c None m (s\<lparr>level := level s + 1\<rparr>))
                 (serializeNode' V rwf nde c (s'\<lparr>level := level s' + 1\<rparr>))"
    using Cons.prems(2) by (intro Cons.prems(3) c) simp_all
  have rest: "sameOut (serializeChildrenNS V rwf nde cs None m (t\<lparr>level := level t - 1\<rparr>))
                 (serializeChildren V rwf nde cs (t'\<lparr>level := level t' - 1\<rparr>))"
    if "events t = events t'" for t t'
    using that by (intro Cons.IH cs Cons.prems(3)) simp_all
  show ?case
    unfolding serializeChildrenNS.simps serializeChildren.simps
    using first by (rule sameOut_andThen) (rule rest)
qed

lemma serializeNodes_agree:
  assumes "\<And>c m t t'. c \<in> set cs \<Longrightarrow> plain rwf c \<Longrightarrow> events t = events t' \<Longrightarrow>
             sameOut (serializeNodeNS V rwf nde c None m t) (serializeNode' V rwf nde c t')"
  shows "plains rwf cs \<Longrightarrow> events s = events s' \<Longrightarrow>
           sameOut (serializeNodesNS V rwf nde cs None m s) (serializeNodes V rwf nde cs s')"
  using assms
proof (induction cs arbitrary: s s')
  case Nil
  then show ?case by (simp add: sameOut_ok)
next
  case (Cons c cs)
  have c: "plain rwf c" and cs: "plains rwf cs" using Cons.prems(1) by simp_all
  have first: "sameOut (serializeNodeNS V rwf nde c None m s) (serializeNode' V rwf nde c s')"
    using Cons.prems(2) by (intro Cons.prems(3) c) simp_all
  have rest: "sameOut (serializeNodesNS V rwf nde cs None m t) (serializeNodes V rwf nde cs t')"
    if "events t = events t'" for t t'
    using that by (intro Cons.IH cs Cons.prems(3)) simp_all
  show ?case
    unfolding serializeNodesNS.simps serializeNodes.simps
    using first by (rule sameOut_andThen) (rule rest)
qed

lemma element_agree:
  assumes ns: "namespaceURI e = None" and attrs: "list_all (plainAttr rwf) (attributes e)"
    and ev: "events s = events s'"
    and kids: "\<And>m t t'. events t = events t' \<Longrightarrow>
                 sameOut (serializeChildrenNS V rwf nde cs None m t)
                         (serializeChildren V rwf nde cs t')"
  shows "sameOut (serializeNodeNS V rwf nde (Element e cs) None pm s)
                 (serializeNode' V rwf nde (Element e cs) s')"
proof (cases "rwf \<and> (includes_str '':'' (localName e) \<or> \<not> xml_isName V (localName e))")
  case True
  have "openElementNS V e None pm rwf nde s = fail ElementLocalNameInvalid s"
    unfolding openElementNS_plain [OF ns attrs] if_P [OF True] ..
  moreover have "openElement V e rwf nde s' = fail ElementLocalNameInvalid s'"
    unfolding openElement_def if_P [OF True] ..
  ultimately show ?thesis
    unfolding serializeNodeNS.simps serializeNode'.simps
    using ev by (simp add: sameOut_fail)
next
  case False
  have skip: "skipEndTag e cs = (cs = [])" "isVoid e cs = False"
       "\<not> (namespaceURI e = Some HTML \<and> localName e = ''template'')"
    using ns by (simp_all add: skipEndTag_def isVoid_def)
  let ?q = "localName e"
  show ?thesis
  proof (cases "serializeAttributes V (attributes e) rwf nde []")
    case (Inl x)
    have "openElementNS V e None pm rwf nde s = (Inl x, beginTag ?q (snd (copyMap pm s)))"
      unfolding openElementNS_plain [OF ns attrs] if_not_P [OF False] Inl
      by (simp add: pure_def andThen_def)
    moreover have "openElement V e rwf nde s' = (Inl x, beginTag ?q s')"
      unfolding openElement_def if_not_P [OF False] Inl
      by (simp add: pure_def andThen_def)
    ultimately show ?thesis
      using ev by (simp add: sameOut_def andThen_def)
  next
    case (Inr L)
    let ?t = "emit (AttributesEv L) (beginTag ?q (snd (copyMap pm s)))"
    let ?t' = "emit (AttributesEv L) (beginTag ?q s')"
    have t: "events ?t = events ?t'" using ev by simp
    have ns_open: "openElementNS V e None pm rwf nde s = ok (?q, None, length (heap s)) ?t"
      unfolding openElementNS_plain [OF ns attrs] if_not_P [OF False] Inr
      by (simp add: pure_def andThen_def ok_def)
    have fast_open: "openElement V e rwf nde s' = ok () ?t'"
      unfolding openElement_def if_not_P [OF False] Inr
      by (simp add: pure_def andThen_def ok_def)
    show ?thesis
    proof (cases "cs = []")
      case True
      show ?thesis
        unfolding serializeNodeNS.simps serializeNode'.simps ns_open fast_open andThen_ok skip
        using t True by (simp add: sameOut_ok)
    next
      case False
      have inner: "sameOut
          (serializeChildrenNS V rwf nde cs None (length (heap s))
             (emit (OpenTagEnd ?q False False) ?t))
          (serializeChildren V rwf nde cs (emit (OpenTagEnd ?q False False) ?t'))"
        using t by (intro kids) simp
      have "sameOut
          (andThen (serializeChildrenNS V rwf nde cs None (length (heap s))
                      (emit (OpenTagEnd ?q False False) ?t))
             (\<lambda>u s2. ok () (emit (EndElement ?q) (emit (CloseTag ?q) s2))))
          (andThen (serializeChildren V rwf nde cs (emit (OpenTagEnd ?q False False) ?t'))
             (\<lambda>u s2. ok () (emit (EndElement ?q) (emit (CloseTag ?q) s2))))"
        using inner by (rule sameOut_andThen) (simp add: sameOut_ok)
      then show ?thesis
        unfolding serializeNodeNS.simps serializeNode'.simps ns_open fast_open andThen_ok skip
        using False ns by simp
    qed
  qed
qed

lemma serializeNodeNS_agree:
  "plain rwf n \<Longrightarrow> events s = events s' \<Longrightarrow>
     sameOut (serializeNodeNS V rwf nde n None m s) (serializeNode' V rwf nde n s')"
proof (induction n arbitrary: m s s')
  case (Element e cs)
  have ns: "namespaceURI e = None" and attrs: "list_all (plainAttr rwf) (attributes e)"
    and cs: "plains rwf cs"
    using Element.prems(1) by simp_all
  show ?case
    using ns attrs Element.prems(2)
    by (rule element_agree) (intro serializeChildren_agree Element.IH cs; assumption)
next
  case (Document cs)
  have cs: "plains rwf cs" using Document.prems(1) by simp
  have "sameOut (serializeNodesNS V rwf nde cs None m s) (serializeNodes V rwf nde cs s')"
    by (intro serializeNodes_agree Document.IH cs Document.prems(2); assumption)
  then show ?case using Document.prems(2) by (simp add: sameOut_fail)
next
  case (DocumentFragment cs)
  have cs: "plains rwf cs" using DocumentFragment.prems(1) by simp
  have "sameOut (serializeNodesNS V rwf nde cs None m s) (serializeNodes V rwf nde cs s')"
    by (intro serializeNodes_agree DocumentFragment.IH cs DocumentFragment.prems(2); assumption)
  then show ?case by simp
qed (simp_all add: sameOut_leaves sameOut_fail)


section \<open>Declarations of generated prefixes\<close>

lemma onResult_ok [simp]: "onResult (ok v s) Q = Q v s"
  and onResult_fail [simp]: "onResult (fail msg s) Q"
  and onResult_Inr [simp]: "onResult (Inr v, s) Q = Q v s"
  and onResult_Inl [simp]: "onResult (Inl x, s) Q"
  by (simp_all add: onResult_def ok_def fail_def)

lemma onResult_pure: "onResult (pure r s) Q = (case r of Inl x \<Rightarrow> True | Inr v \<Rightarrow> Q v s)"
  by (cases r) (simp_all add: onResult_def pure_def)

lemma onResult_andThen:
  assumes "onResult r Q'"
    and "\<And>v. fst r = Inr v \<Longrightarrow> Q' v (snd r) \<Longrightarrow> onResult (f v (snd r)) Q"
  shows "onResult (andThen r f) Q"
proof (cases "fst r")
  case (Inl x)
  then show ?thesis by (simp add: onResult_def andThen_def)
next
  case (Inr v)
  then have "Q' v (snd r)" using assms(1) by (simp add: onResult_def)
  then have "onResult (f v (snd r)) Q" using Inr by (intro assms(2))
  then show ?thesis using Inr by (simp add: andThen_def)
qed

lemma onResult_D: "onResult r Q \<Longrightarrow> fst r = Inr v \<Longrightarrow> Q v (snd r)"
  by (simp add: onResult_def)

lemma pending_same: "generated s' = generated s \<Longrightarrow> pending V rwf nde L s s'"
  by (simp add: pending_def)

lemma pending_trans:
  assumes "pending V rwf nde L1 s s1" and "pending V rwf nde L2 s1 s2"
  shows "pending V rwf nde (L1 @ L2) s s2"
proof -
  obtain G1 where G1: "generated s1 = generated s @ G1"
    and d1: "list_all (\<lambda>g. list_ex (declares V rwf nde g) L1) G1"
    using assms(1) unfolding pending_def
    by (metis append_take_drop_id)
  obtain G2 where G2: "generated s2 = generated s1 @ G2"
    and d2: "list_all (\<lambda>g. list_ex (declares V rwf nde g) L2) G2"
    using assms(2) unfolding pending_def
    by (metis append_take_drop_id)
  have "list_all (\<lambda>g. list_ex (declares V rwf nde g) (L1 @ L2)) (G1 @ G2)"
    using d1 d2 by (auto simp add: list_all_iff list_ex_iff)
  then show ?thesis using G1 G2 by (simp add: pending_def)
qed

lemma pending_Cons:
  "pending V rwf nde L s s' \<Longrightarrow> pending V rwf nde (t # L) s s'"
  by (auto simp add: pending_def list_all_iff list_ex_iff)

lemma pending_generatePrefix:
  assumes "serializeAttributeValue V u rwf nde = Inr v"
  shows "pending V rwf nde [(None, Some ''xmlns'', fst (generatePrefix u m s), v)] s
           (snd (generatePrefix u m s))"
  using assms by (simp add: pending_def generatePrefix_def Let_def setMap_def declares_def)

lemma chooseAttrPrefix_result:
  "chooseAttrPrefix a u m s = generatePrefix (Some u) m s \<or>
   snd (chooseAttrPrefix a u m s) = s"
  by (simp add: chooseAttrPrefix_def split: option.splits)

lemma pending_chooseAttrPrefix:
  assumes "serializeAttributeValue V (Some u) rwf nde = Inr v"
  shows "pending V rwf nde [(None, Some ''xmlns'', fst (chooseAttrPrefix a u m s), v)] s
           (snd (chooseAttrPrefix a u m s))"
  using chooseAttrPrefix_result [of a u m s] pending_generatePrefix [OF assms, of m s]
  by (auto simp add: pending_same)


lemma pending_append:
  "pending V rwf nde L s s' \<Longrightarrow> pending V rwf nde (L @ L') s s'"
  "pending V rwf nde L s s' \<Longrightarrow> pending V rwf nde (L' @ L) s s'"
  by (auto simp add: pending_def list_all_iff list_ex_iff)

lemma pending_cong:
  "generated s'' = generated s' \<Longrightarrow> pending V rwf nde L s s' \<Longrightarrow> pending V rwf nde L s s''"
  "generated s0 = generated s \<Longrightarrow> pending V rwf nde L s s' \<Longrightarrow> pending V rwf nde L s0 s'"
  by (simp_all add: pending_def)

lemma generated_recordNamespaceInformation [simp]:
  "generated (snd (recordNamespaceInformation as m lpm d s)) = generated s"
  by (induction as arbitrary: lpm d s) (simp_all add: Let_def split: option.splits)

lemma generated_copyMap [simp]: "generated (snd (copyMap pm s)) = generated s"
  by (simp add: copyMap_def)

lemma serializeAttrNS_pending:
  "onResult (serializeAttrNS V a m lpm ign rwf nde s) (\<lambda>out s'. pending V rwf nde out s s')"
proof (cases "aNamespaceURI a")
  case None
  then show ?thesis
    by (simp add: serializeAttrNS_def onResult_pure pending_same split: sum.splits)
next
  case (Some u)
  show ?thesis
  proof (cases "u = XMLNS")
    case True
    then show ?thesis using Some
      by (simp add: serializeAttrNS_def Let_def onResult_pure pending_same split: sum.splits)
  next
    case other: False
    show ?thesis
    proof (cases "pm_get (aPrefix a) (Some u) (theMap s m)")
      case (Some cp)
      then show ?thesis using other \<open>aNamespaceURI a = Some u\<close>
        by (simp add: serializeAttrNS_def Let_def onResult_pure pending_same split: sum.splits)
    next
      case None
      let ?ps = "chooseAttrPrefix a u m s"
      have eq: "serializeAttrNS V a m lpm ign rwf nde s =
         andThen (pure (serializeAttributeValue V (Some u) rwf nde) (snd ?ps))
                 (\<lambda>v s1.
               andThen (pure (attrTuple V a (Some (fst ?ps)) rwf nde) s1)
                 (\<lambda>t s2. ok ((None, Some ''xmlns'', fst ?ps, v) # t) s2))"
        using None other \<open>aNamespaceURI a = Some u\<close>
        by (simp add: serializeAttrNS_def Let_def)
      show ?thesis
      proof (cases "serializeAttributeValue V (Some u) rwf nde")
        case (Inl x)
        then show ?thesis unfolding eq by simp
      next
        case (Inr v)
        have p: "pending V rwf nde ((None, Some ''xmlns'', fst ?ps, v) # t) s (snd ?ps)" for t
          using pending_append(1) [OF pending_chooseAttrPrefix [OF Inr, of a m s], of t] by simp
        show ?thesis
          unfolding eq Inr
          by (cases "attrTuple V a (Some (fst ?ps)) rwf nde") (simp_all add: p)
      qed
    qed
  qed
qed

lemma serializeAttributesNS_pending:
  "onResult (serializeAttributesNS V as m lpm ign rwf nde L s)
     (\<lambda>res s'. pending V rwf nde res s s')"
proof (induction as arbitrary: L s)
  case Nil
  show ?case by (simp add: pending_same)
next
  case (Cons a as)
  show ?case
  proof (cases "\<not> rwf \<and> \<not> ign \<and> aNamespaceURI a = None")
    case True
    then have eq: "serializeAttributesNS V (a # as) m lpm ign rwf nde L s =
        andThen (pure (serializeAttributeValue V (Some (aValue a)) rwf nde) s) (\<lambda>v s1.
        andThen (serializeAttributesNS V as m lpm ign rwf nde L s1) (\<lambda>rest s2.
        ok ((None, None, aLocalName a, v) # rest) s2))"
      by simp
    show ?thesis
    proof (cases "serializeAttributeValue V (Some (aValue a)) rwf nde")
      case (Inl x)
      then show ?thesis unfolding eq by simp
    next
      case (Inr v)
      show ?thesis
        unfolding eq Inr andThen_pure_Inr
        by (rule onResult_andThen [OF Cons.IH]) (simp add: pending_Cons)
    qed
  next
    case False
    show ?thesis
    proof (cases "rwf \<and> lns_has (aNamespaceURI a) (aLocalName a) L")
      case True
      then show ?thesis using False by simp
    next
      case nodup: False
      let ?L' = "if rwf then lns_set (aNamespaceURI a) (aLocalName a) L else L"
      have eq: "serializeAttributesNS V (a # as) m lpm ign rwf nde L s =
        andThen (serializeAttrNS V a m lpm ign rwf nde s) (\<lambda>out s1.
        andThen (serializeAttributesNS V as m lpm ign rwf nde ?L' s1) (\<lambda>rest s2.
        ok (out @ rest) s2))"
        using False nodup by auto
      show ?thesis
        unfolding eq
      proof (rule onResult_andThen [OF serializeAttrNS_pending])
        fix out
        assume out: "pending V rwf nde out s (snd (serializeAttrNS V a m lpm ign rwf nde s))"
        show "onResult
           (andThen (serializeAttributesNS V as m lpm ign rwf nde ?L'
                       (snd (serializeAttrNS V a m lpm ign rwf nde s)))
              (\<lambda>rest s2. ok (out @ rest) s2))
           (\<lambda>res s'. pending V rwf nde res s s')"
          by (rule onResult_andThen [OF Cons.IH]) (simp add: pending_trans [OF out])
      qed
    qed
  qed
qed

lemma declarePrefix_pending:
  "onResult (declarePrefix V e p ns m lpm ldn rwf nde s)
     (\<lambda>name s'. pending V rwf nde (snd (snd (snd name))) s s')"
proof (cases "serializeAttributeValue V (namespaceURI e) rwf nde")
  case (Inl x)
  then show ?thesis by (simp add: declarePrefix_def Let_def)
next
  case (Inr v)
  show ?thesis
  proof (cases "js_in p lpm")
    case True
    have "pending V rwf nde [(None, Some ''xmlns'', fst (generatePrefix (namespaceURI e) m s), v)] s
            (snd (generatePrefix (namespaceURI e) m s))"
      using Inr by (rule pending_generatePrefix)
    then show ?thesis using True Inr
      by (simp add: declarePrefix_def Let_def pending_cong(1))
  next
    case False
    then show ?thesis using Inr
      by (simp add: declarePrefix_def Let_def pending_same)
  qed
qed

lemma declareDefault_pending:
  "onResult (declareDefault V e rwf nde s)
     (\<lambda>name s'. pending V rwf nde (snd (snd (snd name))) s s')"
  by (cases "serializeAttributeValue V (namespaceURI e) rwf nde")
     (simp_all add: declareDefault_def pending_same)

lemma resolveNameNS_pending:
  "onResult (resolveNameNS V e ns m lpm ldn rwf nde s)
     (\<lambda>name s'. pending V rwf nde (snd (snd (snd name))) s s')"
proof (cases rule: resolveNameNS_cases [where ns = ns and e = e and rwf = rwf and ldn = ldn
      and pm = "theMap s m"])
  case same
  then show ?thesis by (simp add: resolveNameNS_same pending_same)
next
  case xmlns
  then show ?thesis by (simp add: resolveNameNS_xmlns)
next
  case (candidate cp)
  then show ?thesis by (simp add: resolveNameNS_candidate pending_same)
next
  case (prefix p)
  then show ?thesis by (simp add: resolveNameNS_prefix declarePrefix_pending)
next
  case default
  then show ?thesis by (simp add: resolveNameNS_default declareDefault_pending)
next
  case declared
  then show ?thesis by (simp add: resolveNameNS_declared pending_same)
qed


lemma declaredIn_append:
  "declaredIn V rwf nde evs g \<Longrightarrow> declaredIn V rwf nde (evs @ evs') g"
  by (simp add: declaredIn_def)

lemma declInv_emit: "declInv V rwf nde k s \<Longrightarrow> declInv V rwf nde k (emit ev s)"
  by (auto simp add: declInv_def list_all_iff declaredIn_append)

lemma declInv_level [simp]: "declInv V rwf nde k (s\<lparr>level := l\<rparr>) = declInv V rwf nde k s"
  by (simp add: declInv_def)

lemma declInv_extend:
  assumes inv: "declInv V rwf nde k s"
    and new: "pending V rwf nde L s s2"
    and ev: "events s2 = events s @ evs"
  shows "declInv V rwf nde k (emit (AttributesEv L) s2)"
proof -
  have k: "k \<le> length (events s)" using inv by (simp add: declInv_def)
  have old: "\<forall>g \<in> set (generated s). declaredIn V rwf nde (drop k (events s)) g"
    using inv by (simp add: declInv_def list_all_iff)
  obtain G where G: "generated s2 = generated s @ G"
    and d: "\<forall>g \<in> set G. list_ex (declares V rwf nde g) L"
    using new unfolding pending_def list_all_iff by (metis append_take_drop_id)
  have evs: "drop k (events (emit (AttributesEv L) s2))
               = drop k (events s) @ evs @ [AttributesEv L]"
    using k ev by simp
  have "declaredIn V rwf nde (drop k (events (emit (AttributesEv L) s2))) g"
    if "g \<in> set (generated s2)" for g
  proof (cases "g \<in> set (generated s)")
    case True
    then show ?thesis unfolding evs using old by (simp add: declaredIn_append)
  next
    case False
    then have "g \<in> set G" using that G by simp
    then show ?thesis unfolding evs using d by (simp add: declaredIn_def)
  qed
  then show ?thesis using k ev by (simp add: declInv_def list_all_iff)
qed

lemma openElementNS_keeps:
  assumes inv: "declInv V rwf nde k s"
  shows "keepsDeclared V rwf nde k (openElementNS V e ns pm rwf nde s)"
proof (cases "fst (openElementNS V e ns pm rwf nde s)")
  case (Inl x)
  then show ?thesis by (simp add: keepsDeclared_def onResult_def)
next
  case (Inr opened)
  let ?m = "length (heap s)"
  let ?rec = "recordNamespaceInformation (attributes e) ?m [] None (snd (copyMap pm s))"
  let ?res = "resolveNameNS V e ns ?m (snd (fst ?rec)) (fst (fst ?rec)) rwf nde (snd ?rec)"
  from Inr obtain name rest s2 where
    name: "fst ?res = Inr name"
    and ev: "events s2 = events s @ [BeginElement (fst name), OpenTagBegin (fst name)]"
    and fin: "snd (openElementNS V e ns pm rwf nde s)
           = emit (AttributesEv (snd (snd (snd name)) @ rest)) s2"
    and rest: "fst (serializeAttributesNS V (attributes e) ?m (snd (fst ?rec))
            (fst (snd (snd name))) rwf nde [] (snd ?res)) = Inr rest"
    and s2: "s2 = snd (serializeAttributesNS V (attributes e) ?m (snd (fst ?rec))
            (fst (snd (snd name))) rwf nde [] (snd ?res))"
    by (rule openElementNS_Inr)
  have "pending V rwf nde (snd (snd (snd name))) (snd ?rec) (snd ?res)"
    using resolveNameNS_pending name by (rule onResult_D)
  then have a: "pending V rwf nde (snd (snd (snd name))) s (snd ?res)"
    by (rule pending_cong(2) [rotated]) simp
  have b: "pending V rwf nde rest (snd ?res) s2"
    unfolding s2 using serializeAttributesNS_pending rest by (rule onResult_D)
  have "pending V rwf nde (snd (snd (snd name)) @ rest) s s2"
    using a b by (rule pending_trans)
  with inv have "declInv V rwf nde k (emit (AttributesEv (snd (snd (snd name)) @ rest)) s2)"
    using ev by (rule declInv_extend)
  then show ?thesis using Inr fin by (simp add: keepsDeclared_def onResult_def)
qed

lemma keepsDeclared_andThen:
  assumes "keepsDeclared V rwf nde k r"
    and "\<And>v t. declInv V rwf nde k t \<Longrightarrow> keepsDeclared V rwf nde k (f v t)"
  shows "keepsDeclared V rwf nde k (andThen r f)"
  unfolding keepsDeclared_def
  using assms(1) [unfolded keepsDeclared_def]
  by (rule onResult_andThen) (rule assms(2) [unfolded keepsDeclared_def])

lemma keepsDeclared_ok: "declInv V rwf nde k s \<Longrightarrow> keepsDeclared V rwf nde k (ok v s)"
  and keepsDeclared_fail: "keepsDeclared V rwf nde k (fail msg s)"
  by (simp_all add: keepsDeclared_def)

lemma keepsDeclared_leaves:
  "declInv V rwf nde k s \<Longrightarrow> keepsDeclared V rwf nde k (serializeComment V d rwf' nde' s)"
  "declInv V rwf nde k s \<Longrightarrow> keepsDeclared V rwf nde k (serializeText V d rwf' nde' s)"
  "declInv V rwf nde k s \<Longrightarrow>
     keepsDeclared V rwf nde k (serializeDocumentType V n p y rwf' nde' s)"
  "declInv V rwf nde k s \<Longrightarrow>
     keepsDeclared V rwf nde k (serializeProcessingInstruction V t d rwf' nde' s)"
  "declInv V rwf nde k s \<Longrightarrow> keepsDeclared V rwf nde k (serializeCData V d rwf' nde' s)"
  by (simp_all add: serializeComment_def serializeText_def serializeDocumentType_def
        serializeProcessingInstruction_def serializeCData_def keepsDeclared_ok
        keepsDeclared_fail declInv_emit)

lemma serializeChildrenNS_keeps:
  assumes "\<And>c ns m s. c \<in> set cs \<Longrightarrow> declInv V rwf nde k s
             \<Longrightarrow> keepsDeclared V rwf nde k (serializeNodeNS V rwf nde c ns m s)"
  shows "declInv V rwf nde k s \<Longrightarrow>
           keepsDeclared V rwf nde k (serializeChildrenNS V rwf nde cs ns m s)"
  using assms
proof (induction cs arbitrary: s)
  case Nil
  then show ?case by (simp add: keepsDeclared_ok)
next
  case (Cons c cs)
  show ?case
    using Cons.prems(1)
    by (auto intro!: keepsDeclared_andThen Cons.prems(2) Cons.IH)
qed

lemma serializeNodesNS_keeps:
  assumes "\<And>c ns m s. c \<in> set cs \<Longrightarrow> declInv V rwf nde k s
             \<Longrightarrow> keepsDeclared V rwf nde k (serializeNodeNS V rwf nde c ns m s)"
  shows "declInv V rwf nde k s \<Longrightarrow>
           keepsDeclared V rwf nde k (serializeNodesNS V rwf nde cs ns m s)"
  using assms
proof (induction cs arbitrary: s)
  case Nil
  then show ?case by (simp add: keepsDeclared_ok)
next
  case (Cons c cs)
  show ?case
    using Cons.prems(1)
    by (auto intro!: keepsDeclared_andThen Cons.prems(2) Cons.IH)
qed

lemma serializeNodeNS_keeps:
  "declInv V rwf nde k s \<Longrightarrow> keepsDeclared V rwf nde k (serializeNodeNS V rwf nde n ns m s)"
proof (induction n arbitrary: ns m s)
  case (Element e cs)
  show ?case
    using Element.prems
    by (auto intro!: keepsDeclared_andThen openElementNS_keeps serializeChildrenNS_keeps
          Element.IH keepsDeclared_ok declInv_emit)
next
  case (Document cs)
  then show ?case by (auto intro!: serializeNodesNS_keeps keepsDeclared_fail)
next
  case (DocumentFragment cs)
  then show ?case by (auto intro!: serializeNodesNS_keeps)
qed (simp_all add: keepsDeclared_leaves keepsDeclared_fail)

lemma serializeNode_declared:
  assumes "fst (serializeNode V True n rwf nde s) = Inr ()"
  shows "list_all (declaredIn V rwf nde
            (drop (length (events s)) (events (snd (serializeNode V True n rwf nde s)))))
           (generatedBy V n rwf nde s)"
proof -
  let ?s0 = "s\<lparr>level := 0, prefixIndex := 1, heap := [pm_set ''xml'' (Some XML) []],
               generated := []\<rparr>"
  let ?r = "serializeNodeNS V rwf nde n None 0 ?s0"
  have "declInv V rwf nde (length (events s)) ?s0" by (simp add: declInv_def)
  then have keeps: "keepsDeclared V rwf nde (length (events s)) ?r"
    by (rule serializeNodeNS_keeps)
  have ok: "fst ?r = Inr ()"
    using assms by (cases "fst ?r") (simp_all add: serializeNode_def)
  have "declInv V rwf nde (length (events s)) (snd ?r)"
    using keeps ok unfolding keepsDeclared_def by (rule onResult_D)
  then show ?thesis by (simp add: declInv_def generatedBy_def serializeNode_def)
qed


section \<open>The prefixes bound to the XMLNS namespace\<close>

lemma pm_get_None_iff:
  "pm_get None u M = None \<longleftrightarrow> (\<forall>p \<in> set (map fst M). map_of M p \<noteq> Some u)"
proof -
  have "pm_get None u M = None \<longleftrightarrow> filter (\<lambda>p. pm_has p u M) (rev (map fst M)) = []"
    by (cases "filter (\<lambda>p. pm_has p u M) (rev (map fst M))") (simp_all add: pm_get_def)
  also have "\<dots> \<longleftrightarrow> (\<forall>p \<in> set (map fst M). map_of M p \<noteq> Some u)"
    unfolding filter_empty_conv by (simp add: pm_has_def)
  finally show ?thesis .
qed

lemma pm_get_None_Nil [simp]: "pm_get None u [] = None"
  by (simp add: pm_get_def)

lemma map_of_pm_set:
  "map_of (pm_set p u M) q = (if q = p then Some u else map_of M q)"
proof -
  have "map_of (filter (\<lambda>e. fst e \<noteq> p) M) q = (if q = p then None else map_of M q)"
    by (induction M) auto
  then show ?thesis by (simp add: pm_set_def map_add_def split: option.splits)
qed

lemma pm_get_None_set:
  assumes "pm_get None u M = None" and "u' \<noteq> u"
  shows "pm_get None u (pm_set p u' M) = None"
proof -
  have "map_of (pm_set p u' M) q \<noteq> Some u" for q
  proof (cases "q = p")
    case True
    then show ?thesis using assms(2) by (simp add: map_of_pm_set)
  next
    case False
    show ?thesis
    proof (cases "map_of M q")
      case None
      then show ?thesis using False by (simp add: map_of_pm_set)
    next
      case (Some w)
      then have "q \<in> set (map fst M)" by (metis map_of_eq_None_iff option.distinct(1) set_map)
      then have "map_of M q \<noteq> Some u" using assms(1) unfolding pm_get_None_iff by blast
      then show ?thesis using False by (simp add: map_of_pm_set)
    qed
  qed
  then show ?thesis unfolding pm_get_None_iff by blast
qed

lemma theMap_setMap:
  "theMap (setMap m p u s) m = (if m < length (heap s) then pm_set p u (theMap s m) else [])"
  by (simp add: setMap_def theMap_def)

lemma noXmlnsAt_setMap:
  assumes "noXmlnsAt m s" and "u \<noteq> Some XMLNS"
  shows "noXmlnsAt m (setMap m p u s)"
proof (cases "m < length (heap s)")
  case True
  have "pm_get None (Some XMLNS) (pm_set p u (theMap s m)) = None"
    using assms unfolding noXmlnsAt_def by (intro pm_get_None_set)
  then show ?thesis using True by (simp add: noXmlnsAt_def theMap_setMap)
next
  case False
  then show ?thesis by (simp add: noXmlnsAt_def theMap_setMap)
qed

lemma noXmlnsAt_emit [simp]: "noXmlnsAt m (emit ev s) = noXmlnsAt m s"
  and noXmlnsAt_beginTag [simp]: "noXmlnsAt m (beginTag q s) = noXmlnsAt m s"
  by (simp_all add: noXmlnsAt_def beginTag_def)

lemma noXmlnsAt_generatePrefix:
  assumes "noXmlnsAt m s" and "u \<noteq> Some XMLNS"
  shows "noXmlnsAt m (snd (generatePrefix u m s))"
proof -
  have "theMap (snd (generatePrefix u m s)) m
          = theMap (setMap m (''ns'' @ toString (prefixIndex s)) u s) m"
    by (simp add: generatePrefix_def Let_def setMap_def theMap_def)
  then show ?thesis
    using noXmlnsAt_setMap [OF assms, of "''ns'' @ toString (prefixIndex s)"]
    by (simp add: noXmlnsAt_def)
qed

lemma noXmlnsAt_copyMap:
  "noXmlnsAt pm s \<Longrightarrow> noXmlnsAt (length (heap s)) (snd (copyMap pm s))"
  by (simp add: noXmlnsAt_def copyMap_def theMap_def)

lemma noXmlnsAt_recordNamespaceInformation:
  "noXmlnsAt m s \<Longrightarrow> list_all (\<lambda>a. aValue a \<noteq> XMLNS) as \<Longrightarrow>
     noXmlnsAt m (snd (recordNamespaceInformation as m lpm d s))"
proof (induction as arbitrary: lpm d s)
  case Nil
  then show ?case by simp
next
  case (Cons a as)
  have a: "aValue a \<noteq> XMLNS" and as: "list_all (\<lambda>a. aValue a \<noteq> XMLNS) as"
    using Cons.prems(2) by simp_all
  have set: "noXmlnsAt m (setMap m p (if aValue a = [] then None else Some (aValue a)) s)" for p
    using Cons.prems(1) a by (intro noXmlnsAt_setMap) simp_all
  show ?case
    using Cons.prems(1) set by (auto simp add: Let_def Cons.IH [OF _ as] split: option.splits)
qed

lemma noXmlnsAt_chooseAttrPrefix:
  "noXmlnsAt m s \<Longrightarrow> u \<noteq> XMLNS \<Longrightarrow> noXmlnsAt m (snd (chooseAttrPrefix a u m s))"
  using chooseAttrPrefix_cases [of a u m s] by (auto simp add: noXmlnsAt_generatePrefix)

lemma noXmlnsAt_andThen:
  "noXmlnsAt m (snd r) \<Longrightarrow> (\<And>v. fst r = Inr v \<Longrightarrow> noXmlnsAt m (snd (f v (snd r))))
     \<Longrightarrow> noXmlnsAt m (snd (andThen r f))"
  by (rule snd_andThen [where P = "noXmlnsAt m"])

lemma noXmlnsAt_serializeAttrNS:
  "noXmlnsAt m s \<Longrightarrow> noXmlnsAt m (snd (serializeAttrNS V a m lpm ign rwf nde s))"
  by (auto simp add: serializeAttrNS_def Let_def noXmlnsAt_chooseAttrPrefix
           split: option.splits intro!: noXmlnsAt_andThen)

lemma noXmlnsAt_declarePrefix:
  "noXmlnsAt m s \<Longrightarrow> namespaceURI e \<noteq> Some XMLNS \<Longrightarrow>
     noXmlnsAt m (snd (declarePrefix V e p ns m lpm ldn rwf nde s))"
  by (auto simp add: declarePrefix_def Let_def noXmlnsAt_setMap noXmlnsAt_generatePrefix
           intro!: noXmlnsAt_andThen)

lemma noXmlnsAt_declareDefault:
  "noXmlnsAt m s \<Longrightarrow> noXmlnsAt m (snd (declareDefault V e rwf nde s))"
  by (auto simp add: declareDefault_def intro!: noXmlnsAt_andThen)

lemma noXmlnsAt_resolveNameNS:
  "noXmlnsAt m s \<Longrightarrow> namespaceURI e \<noteq> Some XMLNS \<Longrightarrow>
     noXmlnsAt m (snd (resolveNameNS V e ns m lpm ldn rwf nde s))"
  by (simp add: resolveNameNS_def noXmlnsAt_declarePrefix noXmlnsAt_declareDefault
           split: option.splits)


section \<open>The literal default namespace declaration\<close>

lemma serializeAttributeValue_Inr:
  "serializeAttributeValue V (Some x) rwf nde = Inr v \<Longrightarrow> v = escapeAttributeValue nde x"
  by (simp add: serializeAttributeValue_def split: if_splits)

lemma attrTuple_Inr:
  "attrTuple V a cp rwf nde = Inr out \<Longrightarrow>
     out = [(aNamespaceURI a, cp, aLocalName a, escapeAttributeValue nde (aValue a))]"
  by (cases "serializeAttributeValue V (Some (aValue a)) rwf nde")
     (auto simp add: attrTuple_def dest: serializeAttributeValue_Inr split: if_splits)

lemma serializeAttrNS_default:
  assumes "declaresDefault a"
    and "fst (serializeAttrNS V a m lpm ign rwf nde s) = Inr out"
  shows "out = (if aValue a = XML \<or> ign then []
                else [(Some XMLNS, pm_get None (Some XMLNS) (theMap s m), aLocalName a,
                       escapeAttributeValue nde (aValue a))])"
proof -
  have a: "aNamespaceURI a = Some XMLNS" "aPrefix a = None"
    using assms(1) by (simp_all add: declaresDefault_def)
  have skip: "skipDeclaration a lpm ign (theMap s m) = (aValue a = XML \<or> ign)"
    using a by (simp add: skipDeclaration_def)
  show ?thesis
  proof (cases "aValue a = XML \<or> ign")
    case True
    then show ?thesis using assms(2) a skip by (simp add: serializeAttrNS_def Let_def)
  next
    case False
    then have "attrTuple V a (pm_get None (Some XMLNS) (theMap s m)) rwf nde = Inr out"
      using assms(2) a skip
      by (simp add: serializeAttrNS_def Let_def split: if_splits)
    from attrTuple_Inr [OF this] show ?thesis using False a by simp
  qed
qed

lemma serializeAttrNS_other:
  assumes other: "\<not> (aLocalName a = ''xmlns'' \<or> declaresDefault a)"
    and out: "fst (serializeAttrNS V a m lpm ign rwf nde s) = Inr out"
  shows "filter namesDefault out = []"
proof -
  have ln: "aLocalName a \<noteq> ''xmlns''" using other by simp
  have tuple: "filter namesDefault t = []" if "attrTuple V a cp rwf nde = Inr t" for cp t
    using attrTuple_Inr [OF that] ln by (simp add: namesDefault_def)
  show ?thesis
  proof (cases "aNamespaceURI a")
    case None
    then show ?thesis using out tuple [of None out] by (simp add: serializeAttrNS_def)
  next
    case (Some u)
    show ?thesis
    proof (cases "u = XMLNS")
      case True
      then show ?thesis using out Some tuple [of _ out]
        by (auto simp add: serializeAttrNS_def Let_def split: if_splits)
    next
      case notxmlns: False
      show ?thesis
      proof (cases "pm_get (aPrefix a) (Some u) (theMap s m)")
        case (Some cp)
        then show ?thesis using out notxmlns \<open>aNamespaceURI a = Some u\<close> tuple [of "Some cp" out]
          by (simp add: serializeAttrNS_def Let_def)
      next
        case None
        let ?ps = "chooseAttrPrefix a u m s"
        have eq: "serializeAttrNS V a m lpm ign rwf nde s =
           andThen (pure (serializeAttributeValue V (Some u) rwf nde) (snd ?ps))
                   (\<lambda>v s1.
                 andThen (pure (attrTuple V a (Some (fst ?ps)) rwf nde) s1)
                   (\<lambda>t s2. ok ((None, Some ''xmlns'', fst ?ps, v) # t) s2))"
          using None notxmlns \<open>aNamespaceURI a = Some u\<close>
          by (simp add: serializeAttrNS_def Let_def)
        from out obtain v where
          step: "serializeAttrNS V a m lpm ign rwf nde s =
                 andThen (pure (attrTuple V a (Some (fst ?ps)) rwf nde) (snd ?ps))
                   (\<lambda>t s2. ok ((None, Some ''xmlns'', fst ?ps, v) # t) s2)"
          unfolding eq by (rule andThen_InrE) simp
        from out obtain t where t: "attrTuple V a (Some (fst ?ps)) rwf nde = Inr t"
          and "serializeAttrNS V a m lpm ign rwf nde s
                 = ok ((None, Some ''xmlns'', fst ?ps, v) # t) (snd ?ps)"
          unfolding step by (rule andThen_InrE) simp
        then have "out = (None, Some ''xmlns'', fst ?ps, v) # t" using out by simp
        then show ?thesis using tuple [OF t] by (simp add: namesDefault_def)
      qed
    qed
  qed
qed

lemma serializeAttributesNS_Cons_InrE:
  assumes "fst (serializeAttributesNS V (a # as) m lpm ign rwf nde L s) = Inr res"
  obtains (plain) v rest where "\<not> rwf" "\<not> ign" "aNamespaceURI a = None"
      "res = (None, None, aLocalName a, v) # rest"
      "fst (serializeAttributesNS V as m lpm ign rwf nde L s) = Inr rest"
  | (other) out rest L' where "\<not> (\<not> rwf \<and> \<not> ign \<and> aNamespaceURI a = None)"
      "fst (serializeAttrNS V a m lpm ign rwf nde s) = Inr out"
      "fst (serializeAttributesNS V as m lpm ign rwf nde L'
              (snd (serializeAttrNS V a m lpm ign rwf nde s))) = Inr rest"
      "res = out @ rest"
proof (cases "\<not> rwf \<and> \<not> ign \<and> aNamespaceURI a = None")
  case True
  then have eq: "serializeAttributesNS V (a # as) m lpm ign rwf nde L s =
      andThen (pure (serializeAttributeValue V (Some (aValue a)) rwf nde) s) (\<lambda>v s1.
      andThen (serializeAttributesNS V as m lpm ign rwf nde L s1) (\<lambda>rest s2.
      ok ((None, None, aLocalName a, v) # rest) s2))"
    by simp
  from assms obtain v where
    step: "serializeAttributesNS V (a # as) m lpm ign rwf nde L s =
      andThen (serializeAttributesNS V as m lpm ign rwf nde L s) (\<lambda>rest s2.
      ok ((None, None, aLocalName a, v) # rest) s2)"
    unfolding eq by (rule andThen_InrE) simp
  from assms obtain rest where
    rest: "fst (serializeAttributesNS V as m lpm ign rwf nde L s) = Inr rest"
    and fin: "serializeAttributesNS V (a # as) m lpm ign rwf nde L s =
      ok ((None, None, aLocalName a, v) # rest)
         (snd (serializeAttributesNS V as m lpm ign rwf nde L s))"
    unfolding step by (rule andThen_InrE)
  have "res = (None, None, aLocalName a, v) # rest" using assms fin by simp
  then show ?thesis using True rest by (intro plain) simp_all
next
  case False
  have nodup: "\<not> (rwf \<and> lns_has (aNamespaceURI a) (aLocalName a) L)"
    using assms False
    by (cases "rwf \<and> lns_has (aNamespaceURI a) (aLocalName a) L") (simp_all add: fail_def)
  let ?L' = "if rwf then lns_set (aNamespaceURI a) (aLocalName a) L else L"
  have eq: "serializeAttributesNS V (a # as) m lpm ign rwf nde L s =
    andThen (serializeAttrNS V a m lpm ign rwf nde s) (\<lambda>out s1.
    andThen (serializeAttributesNS V as m lpm ign rwf nde ?L' s1) (\<lambda>rest s2.
    ok (out @ rest) s2))"
    using False nodup by auto
  from assms obtain out where out: "fst (serializeAttrNS V a m lpm ign rwf nde s) = Inr out"
    and step: "serializeAttributesNS V (a # as) m lpm ign rwf nde L s =
      andThen (serializeAttributesNS V as m lpm ign rwf nde ?L'
                 (snd (serializeAttrNS V a m lpm ign rwf nde s))) (\<lambda>rest s2.
      ok (out @ rest) s2)"
    unfolding eq by (rule andThen_InrE)
  from assms obtain rest where
    rest: "fst (serializeAttributesNS V as m lpm ign rwf nde ?L'
                 (snd (serializeAttrNS V a m lpm ign rwf nde s))) = Inr rest"
    and fin: "serializeAttributesNS V (a # as) m lpm ign rwf nde L s =
      ok (out @ rest) (snd (serializeAttributesNS V as m lpm ign rwf nde ?L'
                 (snd (serializeAttrNS V a m lpm ign rwf nde s))))"
    unfolding step by (rule andThen_InrE)
  have "res = out @ rest" using assms fin by simp
  then show ?thesis using False out rest by (intro other)
qed


lemma serializeAttributesNS_literal:
  assumes "\<And>a. a \<in> set as \<Longrightarrow> aLocalName a = ''xmlns'' \<or> declaresDefault a \<Longrightarrow>
             a = defaultDeclaration x"
    and "fst (serializeAttributesNS V as m lpm ign rwf nde L s) = Inr res"
  shows "\<exists>cps. filter namesDefault res
                 = map (\<lambda>cp. (Some XMLNS, cp, ''xmlns'', escapeAttributeValue nde x)) cps
           \<and> length cps = (if x = XML \<or> ign then 0
                            else length (filter (\<lambda>a. a = defaultDeclaration x) as))
           \<and> (noXmlnsAt m s \<longrightarrow> list_all (\<lambda>cp. cp = None) cps)"
  using assms
proof (induction as arbitrary: L s res)
  case Nil
  then show ?case by simp
next
  case (Cons a as)
  let ?d = "defaultDeclaration x"
  let ?t = "\<lambda>cp. (Some XMLNS, cp, ''xmlns'', escapeAttributeValue nde x)"
  have d: "declaresDefault ?d" "aLocalName ?d = ''xmlns''" "aValue ?d = x"
    "aNamespaceURI ?d = Some XMLNS"
    by (simp_all add: declaresDefault_def defaultDeclaration_def)
  have only: "\<And>b. b \<in> set as \<Longrightarrow> aLocalName b = ''xmlns'' \<or> declaresDefault b \<Longrightarrow> b = ?d"
    using Cons.prems(1) by simp
  have notd: "\<not> (aLocalName a = ''xmlns'' \<or> declaresDefault a)" if "a \<noteq> ?d"
    using Cons.prems(1) [of a] that by auto
  from Cons.prems(2) show ?case
  proof (cases rule: serializeAttributesNS_Cons_InrE)
    case (plain v rest)
    have ne: "a \<noteq> ?d" using plain(3) d(4) by auto
    from Cons.IH [OF only plain(5)] obtain cps where
      cps: "filter namesDefault rest = map ?t cps"
        "length cps = (if x = XML \<or> ign then 0 else length (filter (\<lambda>a. a = ?d) as))"
        "noXmlnsAt m s \<longrightarrow> list_all (\<lambda>cp. cp = None) cps"
      by blast
    have "filter namesDefault res = map ?t cps"
      using notd [OF ne] cps(1) unfolding plain(4) by (simp add: namesDefault_def)
    then show ?thesis using cps(2,3) ne by auto
  next
    case (other out rest L')
    let ?s1 = "snd (serializeAttrNS V a m lpm ign rwf nde s)"
    from Cons.IH [OF only other(3)] obtain cps where
      cps: "filter namesDefault rest = map ?t cps"
        "length cps = (if x = XML \<or> ign then 0 else length (filter (\<lambda>a. a = ?d) as))"
        "noXmlnsAt m ?s1 \<longrightarrow> list_all (\<lambda>cp. cp = None) cps"
      by blast
    have keep: "noXmlnsAt m ?s1" if "noXmlnsAt m s"
      using that by (rule noXmlnsAt_serializeAttrNS)
    show ?thesis
    proof (cases "a = ?d")
      case True
      have out: "out = (if x = XML \<or> ign then []
                else [?t (pm_get None (Some XMLNS) (theMap s m))])"
        using serializeAttrNS_default [OF d(1) other(2) [unfolded True]] d by simp
      show ?thesis
      proof (cases "x = XML \<or> ign")
        case skip: True
        then have "filter namesDefault res = map ?t cps"
          using out cps(1) unfolding other(4) by simp
        then show ?thesis using cps(2,3) skip keep by auto
      next
        case noskip: False
        let ?cp = "pm_get None (Some XMLNS) (theMap s m)"
        have "filter namesDefault res = map ?t (?cp # cps)"
          using out cps(1) noskip unfolding other(4) by (simp add: namesDefault_def)
        moreover have "length (?cp # cps) = (if x = XML \<or> ign then 0
                            else length (filter (\<lambda>a. a = ?d) (a # as)))"
          using cps(2) noskip True by simp
        moreover have "noXmlnsAt m s \<longrightarrow> list_all (\<lambda>cp. cp = None) (?cp # cps)"
          using cps(3) keep by (simp add: noXmlnsAt_def)
        ultimately show ?thesis by blast
      qed
    next
      case False
      have "filter namesDefault out = []"
        using notd [OF False] \<open>fst (serializeAttrNS V a m lpm ign rwf nde s) = Inr out\<close>
        by (rule serializeAttrNS_other)
      then have "filter namesDefault res = map ?t cps"
        using cps(1) unfolding \<open>res = out @ rest\<close> by simp
      then show ?thesis using cps(2,3) False keep by auto
    qed
  qed
qed

lemma localDefault_Some:
  assumes "localDefault as = Some y"
  shows "\<exists>a \<in> set as. declaresDefault a \<and> aValue a = y"
proof (cases "filter declaresDefault as")
  case Nil
  then show ?thesis using assms by (simp add: localDefault_def)
next
  case (Cons b bs)
  then have y: "aValue (last (filter declaresDefault as)) = y"
    using assms by (simp add: localDefault_def)
  have "last (filter declaresDefault as) \<in> set (filter declaresDefault as)"
    using Cons by (intro last_in_set) simp
  then show ?thesis using y by auto
qed

lemma recordNamespaceInformation_localDefault:
  "fst (fst (recordNamespaceInformation as m lpm None s)) = localDefault as"
  by (simp add: recordNamespaceInformation_default localDefault_def)

lemma resolveNameNS_literal:
  assumes "ldn = namespaceURI e" and "ldn \<noteq> None"
    and "fst (resolveNameNS V e ns m lpm ldn rwf nde s) = Inr name"
  shows "filter namesDefault (snd (snd (snd name))) = []"
    and "fst (snd (snd name)) = (ns = namespaceURI e)"
proof -
  have "filter namesDefault (snd (snd (snd name))) = []
        \<and> fst (snd (snd name)) = (ns = namespaceURI e)"
  proof (cases rule: resolveNameNS_cases [where ns = ns and e = e and rwf = rwf and ldn = ldn
        and pm = "theMap s m"])
    case same
    then show ?thesis using assms by (auto simp add: resolveNameNS_same)
  next
    case xmlns
    then show ?thesis using assms by (simp add: resolveNameNS_xmlns)
  next
    case (candidate cp)
    then show ?thesis using assms by (auto simp add: resolveNameNS_candidate)
  next
    case (prefix p)
    then have "fst (declarePrefix V e p ns m lpm ldn rwf nde s) = Inr name"
      using assms by (simp add: resolveNameNS_prefix)
    then show ?thesis using prefix(1)
      by (elim declarePrefix_Inr) (simp add: namesDefault_def)
  next
    case default
    then show ?thesis using assms by simp
  next
    case declared
    then show ?thesis using assms by (auto simp add: resolveNameNS_declared)
  qed
  then show "filter namesDefault (snd (snd (snd name))) = []"
    and "fst (snd (snd name)) = (ns = namespaceURI e)" by simp_all
qed


lemma serializeAttributesNS_emits_default:
  assumes "fst (serializeAttributesNS V as m lpm False rwf nde L s) = Inr res"
    and "a \<in> set as" and "declaresDefault a" and "aValue a \<noteq> XML"
  shows "\<exists>cp. (Some XMLNS, cp, aLocalName a, escapeAttributeValue nde (aValue a)) \<in> set res
           \<and> (noXmlnsAt m s \<longrightarrow> cp = None)"
  using assms(1,2)
proof (induction as arbitrary: L s res)
  case Nil
  then show ?case by simp
next
  case (Cons b bs)
  from Cons.prems(1) show ?case
  proof (cases rule: serializeAttributesNS_Cons_InrE)
    case (plain v rest)
    have "a \<noteq> b" using plain(3) assms(3) by (auto simp add: declaresDefault_def)
    then have "a \<in> set bs" using Cons.prems(2) by simp
    from Cons.IH [OF plain(5) this] show ?thesis unfolding plain(4) by auto
  next
    case (other out rest L')
    show ?thesis
    proof (cases "a = b")
      case True
      have "out = [(Some XMLNS, pm_get None (Some XMLNS) (theMap s m), aLocalName a,
                       escapeAttributeValue nde (aValue a))]"
        using serializeAttrNS_default [OF assms(3) other(2) [folded True]] assms(4) by simp
      then show ?thesis unfolding other(4) by (auto simp add: noXmlnsAt_def)
    next
      case False
      then have "a \<in> set bs" using Cons.prems(2) by simp
      from Cons.IH [OF other(3) this] noXmlnsAt_serializeAttrNS [of m s V b lpm False rwf nde]
      show ?thesis unfolding other(4) by auto
    qed
  qed
qed

section \<open>Main results: generated prefixes\<close>

text \<open>
  Claim C1, as the code has it. The generator \<^verbatim>\<open>_generatePrefix\<close> returns \<^verbatim>\<open>ns\<close> followed by
  the value of the prefix index it reads, increments the index, binds the returned prefix
  to the namespace in the map it was given, and this call is the entry added to the
  trace. Within one call of \<^verbatim>\<open>serializeNode\<close> on a tree with namespaces, whatever the tree
  and the flags and whether or not the call throws: every entry of the trace has this
  form, and the \<open>k\<close>-th index value read is \<open>indexAfter k\<close>. As long as no more than 2^53
  prefixes are generated, the values read are 1, 2, ... in the order of generation, so
  they increase strictly across the whole call, the prefixes returned by the generator
  are pairwise distinct, and no two namespaces receive the same prefix from the
  generator. When the call returns, every generated prefix is declared for its namespace
  in an attributes event made by the call. The generator does not look at the prefixes
  the document declares itself, so the statement is about the prefixes the generator
  hands out only.
\<close>

theorem generated_prefixes:
  "fst (generatePrefix u m s) = ''ns'' @ toString (prefixIndex s)
   \<and> prefixIndex (snd (generatePrefix u m s)) = increment (prefixIndex s)
   \<and> generated (snd (generatePrefix u m s))
       = generated s @ [(fst (generatePrefix u m s), prefixIndex s, u)]
   \<and> (m < length (heap s) \<longrightarrow>
        theMap (snd (generatePrefix u m s)) m
          = pm_set (fst (generatePrefix u m s)) u (theMap s m))
   \<and> list_all (\<lambda>g. fst g = ''ns'' @ toString (fst (snd g))) (generatedBy V n rwf nde s')
   \<and> map (\<lambda>g. fst (snd g)) (generatedBy V n rwf nde s')
       = map indexAfter [0..<length (generatedBy V n rwf nde s')]
   \<and> (length (generatedBy V n rwf nde s') \<le> 2 ^ 53 \<longrightarrow>
        map (\<lambda>g. fst (snd g)) (generatedBy V n rwf nde s')
          = [1..<Suc (length (generatedBy V n rwf nde s'))]
        \<and> sorted_wrt (<) (map (\<lambda>g. fst (snd g)) (generatedBy V n rwf nde s'))
        \<and> distinct (map fst (generatedBy V n rwf nde s'))
        \<and> (\<forall>a \<in> set (generatedBy V n rwf nde s'). \<forall>b \<in> set (generatedBy V n rwf nde s').
              snd (snd a) \<noteq> snd (snd b) \<longrightarrow> fst a \<noteq> fst b))
   \<and> (fst (serializeNode V True n rwf nde s') = Inr () \<longrightarrow>
        list_all (declaredIn V rwf nde
            (drop (length (events s')) (events (snd (serializeNode V True n rwf nde s')))))
          (generatedBy V n rwf nde s'))"
proof -
  let ?t = "snd (serializeNode V True n rwf nde s')"
  have inv: "genInv ?t" by (rule serializeNode_genInv)
  have gen: "fst (generatePrefix u m s) = ''ns'' @ toString (prefixIndex s)"
    "prefixIndex (snd (generatePrefix u m s)) = increment (prefixIndex s)"
    "generated (snd (generatePrefix u m s))
       = generated s @ [(fst (generatePrefix u m s), prefixIndex s, u)]"
    by (simp_all add: generatePrefix_def Let_def setMap_def)
  have bind: "theMap (snd (generatePrefix u m s)) m
          = pm_set (fst (generatePrefix u m s)) u (theMap s m)" if "m < length (heap s)"
    using that by (simp add: generatePrefix_def Let_def setMap_def theMap_def)
  have form: "list_all (\<lambda>g. fst g = ''ns'' @ toString (fst (snd g))) (generated ?t)"
    and idx: "map (\<lambda>g. fst (snd g)) (generated ?t) = map indexAfter [0..<length (generated ?t)]"
    using inv by (simp_all add: genInv_def)
  have few: "map (\<lambda>g. fst (snd g)) (generated ?t) = [1..<Suc (length (generated ?t))]
        \<and> sorted_wrt (<) (map (\<lambda>g. fst (snd g)) (generated ?t))
        \<and> distinct (map fst (generated ?t))
        \<and> (\<forall>a \<in> set (generated ?t). \<forall>b \<in> set (generated ?t).
              snd (snd a) \<noteq> snd (snd b) \<longrightarrow> fst a \<noteq> fst b)"
    if len: "length (generated ?t) \<le> 2 ^ 53"
  proof -
    have upt: "map (\<lambda>g. fst (snd g)) (generated ?t) = [1..<Suc (length (generated ?t))]"
      using idx indexAfter_upt [OF len] by simp
    have sorted: "sorted_wrt (<) (map (\<lambda>g. fst (snd g)) (generated ?t))"
      by (simp only: upt sorted_wrt_upt)
    have dist: "distinct (map fst (generated ?t))" using inv len by (rule genInv_distinct)
    have "\<forall>a \<in> set (generated ?t). \<forall>b \<in> set (generated ?t).
            snd (snd a) \<noteq> snd (snd b) \<longrightarrow> fst a \<noteq> fst b"
      using dist by (auto simp add: distinct_map inj_on_def)
    then show ?thesis using upt sorted dist by (intro conjI)
  qed
  have decl: "list_all (declaredIn V rwf nde (drop (length (events s')) (events ?t)))
          (generatedBy V n rwf nde s')"
    if "fst (serializeNode V True n rwf nde s') = Inr ()"
    using that by (rule serializeNode_declared)
  show ?thesis
    unfolding generatedBy_def
    using gen bind form idx few decl [unfolded generatedBy_def]
    by (intro conjI impI; blast)
qed

text \<open>
  The generator on an empty map; and three siblings, each with an attribute in a namespace
  of its own: the prefixes \<^verbatim>\<open>ns1\<close>, \<^verbatim>\<open>ns2\<close>, \<^verbatim>\<open>ns3\<close> are generated across the unrelated
  subtrees and declared in the output.
\<close>

theorem generated_prefixes_witness:
  "theMap (snd (generatePrefix (Some ''urn:1'') 0 (initial\<lparr>heap := [[]]\<rparr>))) 0
     = [(''ns1'', Some ''urn:1'')]
   \<and> generatedBy acceptAll threeSiblings True False initial
     = [(''ns1'', 1, Some ''urn:1''), (''ns2'', 2, Some ''urn:2''), (''ns3'', 3, Some ''urn:3'')]
   \<and> distinct (map fst (generatedBy acceptAll threeSiblings True False initial))
   \<and> fst (serializeNode acceptAll True threeSiblings True False initial) = Inr ()
   \<and> list_all (declaredIn acceptAll True False
        (events (snd (serializeNode acceptAll True threeSiblings True False initial))))
        (generatedBy acceptAll threeSiblings True False initial)"
proof -
  let ?S = "initial\<lparr>heap := [[]]\<rparr>"
  note inst = generated_prefixes [where u = "Some ''urn:1''" and m = 0 and s = ?S
      and V = acceptAll and n = threeSiblings and rwf = True and nde = False and s' = initial]
  have h: "(0::nat) < length (heap ?S)" by simp
  have a: "theMap (snd (generatePrefix (Some ''urn:1'') 0 ?S)) 0 = [(''ns1'', Some ''urn:1'')]"
    using inst h by (simp add: initial_def theMap_def pm_set_def toString.simps digit_def)
  have e: "generatedBy acceptAll threeSiblings True False initial
     = [(''ns1'', 1, Some ''urn:1''), (''ns2'', 2, Some ''urn:2''), (''ns3'', 3, Some ''urn:3'')]"
    by (simp add: threeSiblings_def eval_defs cong: andThen_weak_cong)
  have few: "length (generatedBy acceptAll threeSiblings True False initial) \<le> 2 ^ 53"
    unfolding e by simp
  have d: "distinct (map fst (generatedBy acceptAll threeSiblings True False initial))"
    using inst few by blast
  have r: "fst (serializeNode acceptAll True threeSiblings True False initial) = Inr ()"
    by (simp add: threeSiblings_def eval_defs cong: andThen_weak_cong)
  have l: "list_all (declaredIn acceptAll True False
        (events (snd (serializeNode acceptAll True threeSiblings True False initial))))
        (generatedBy acceptAll threeSiblings True False initial)"
    using inst r by (simp add: initial_def)
  show ?thesis using a e d r l by (intro conjI)
qed

text \<open>
  A generated prefix can be the prefix of another namespace: an element declares
  \<^verbatim>\<open>xmlns:ns1="urn:x"\<close> itself and has an attribute without prefix in the namespace
  \<^verbatim>\<open>urn:y\<close>. With well-formedness required the call returns, the generator hands out
  \<^verbatim>\<open>ns1\<close> for \<^verbatim>\<open>urn:y\<close>, and the attributes event declares \<^verbatim>\<open>ns1\<close> twice, once for each
  namespace.
\<close>

theorem generated_prefix_declared_twice:
  "fst (serializeNode acceptAll True ownNs1 True False initial) = Inr ()
   \<and> generatedBy acceptAll ownNs1 True False initial = [(''ns1'', 1, Some ''urn:y'')]
   \<and> events (snd (serializeNode acceptAll True ownNs1 True False initial))
     = [BeginElement ''e'', OpenTagBegin ''e'',
        AttributesEv [(Some XMLNS, Some ''xmlns'', ''ns1'', ''urn:x''),
                      (None, Some ''xmlns'', ''ns1'', ''urn:y''),
                      (Some ''urn:y'', Some ''ns1'', ''a'', ''v'')],
        OpenTagEnd ''e'' True False, EndElement ''e'']"
  by (simp add: ownNs1_def eval_defs cong: andThen_weak_cong)

text \<open>
  At 2^53 the prefix index stays where it is, and the generator returns the same prefix
  for two namespaces. A call of \<^verbatim>\<open>serializeNode\<close> starts the index at 1 and gets there
  only after 2^53 generated prefixes.
\<close>

theorem generatePrefix_saturates:
  "fst (generatePrefix (Some ''urn:a'') 0 (initial\<lparr>prefixIndex := 2 ^ 53, heap := [[]]\<rparr>))
     = ''ns9007199254740992''
   \<and> fst (generatePrefix (Some ''urn:b'') 0
          (snd (generatePrefix (Some ''urn:a'') 0
                  (initial\<lparr>prefixIndex := 2 ^ 53, heap := [[]]\<rparr>))))
     = ''ns9007199254740992''"
  by (simp add: generatePrefix_def increment_def initial_def Let_def setMap_def
        toString.simps digit_def)

section \<open>Main results: copies of the prefix map\<close>

text \<open>
  Claim C2. On the namespace-aware path, serializing a node, the children of an element
  or the children of a document leaves every prefix map that existed before exactly as it
  was, whether or not the serialization throws: an element writes to its own copy of the
  incoming map only. So the entries added for an element and its subtree are seen neither
  by its following siblings nor by its ancestors, which keep reading the map they had.
\<close>

theorem prefix_map_frame:
  "r < length (heap s) \<Longrightarrow>
     theMap (snd (serializeNodeNS V rwf nde n ns pm s)) r = theMap s r
   \<and> theMap (snd (serializeChildrenNS V rwf nde cs ns pm s)) r = theMap s r
   \<and> theMap (snd (serializeNodesNS V rwf nde cs ns pm s)) r = theMap s r"
proof -
  assume r: "r < length (heap s)"
  have frame: "theMap s' r = theMap s r" if "nodeEffect s s'" for s'
  proof -
    have "heap s' ! r = take (length (heap s)) (heap s') ! r" using r by simp
    also have "\<dots> = heap s ! r" using that by (simp add: nodeEffect_def)
    finally show ?thesis
      using r nodeEffect_length [OF that] by (simp add: theMap_def)
  qed
  have node: "nodeEffect s0 s1 \<Longrightarrow> nodeEffect s0 (snd (serializeNodeNS V rwf nde c ns' m s1))"
    for c ns' m s0 s1
    by (rule serializeNodeNS_effect)
  show ?thesis
    by (intro conjI frame serializeNodeNS_effect serializeChildrenNS_effect
          serializeNodesNS_effect node nodeEffect_refl)
qed

text \<open>
  An element that declares the prefix \<^verbatim>\<open>a\<close>: the declaration is added to the element's copy,
  the map of the caller is unchanged.
\<close>

theorem prefix_map_frame_witness:
  "(0::nat) < length (heap (initial\<lparr>heap := [pm_set ''xml'' (Some XML) []]\<rparr>))
   \<and> theMap (snd (serializeNodeNS acceptAll True False
        (Element \<lparr>localName = ''e'', prefix = None, namespaceURI = None, attributes =
           [\<lparr>aLocalName = ''a'', aPrefix = Some ''xmlns'', aNamespaceURI = Some XMLNS,
              aValue = ''urn:a''\<rparr>]\<rparr> [])
        None 0 (initial\<lparr>heap := [pm_set ''xml'' (Some XML) []]\<rparr>))) 0
     = theMap (initial\<lparr>heap := [pm_set ''xml'' (Some XML) []]\<rparr>) 0
   \<and> theMap (snd (serializeNodeNS acceptAll True False
        (Element \<lparr>localName = ''e'', prefix = None, namespaceURI = None, attributes =
           [\<lparr>aLocalName = ''a'', aPrefix = Some ''xmlns'', aNamespaceURI = Some XMLNS,
              aValue = ''urn:a''\<rparr>]\<rparr> [])
        None 0 (initial\<lparr>heap := [pm_set ''xml'' (Some XML) []]\<rparr>))) 1
     = [(''xml'', Some XML), (''a'', Some ''urn:a'')]"
proof -
  let ?S = "initial\<lparr>heap := [pm_set ''xml'' (Some XML) []]\<rparr>"
  let ?T = "Element \<lparr>localName = ''e'', prefix = None, namespaceURI = None, attributes =
           [\<lparr>aLocalName = ''a'', aPrefix = Some ''xmlns'', aNamespaceURI = Some XMLNS,
              aValue = ''urn:a''\<rparr>]\<rparr> []"
  have h: "(0::nat) < length (heap ?S)" by (simp add: initial_def)
  have a: "theMap (snd (serializeNodeNS acceptAll True False ?T None 0 ?S)) 0 = theMap ?S 0"
    by (rule prefix_map_frame [OF h, THEN conjunct1])
  have b: "theMap (snd (serializeNodeNS acceptAll True False ?T None 0 ?S)) 1
             = [(''xml'', Some XML), (''a'', Some ''urn:a'')]"
    by (simp add: eval_defs cong: andThen_weak_cong)
  show ?thesis using h a b by (intro conjI)
qed

section \<open>Main results: the two paths on trees without namespaces\<close>

text \<open>
  Claim C3. The two paths do not agree on every tree without namespaces. An element
  \<^verbatim>\<open>root\<close> with the attribute \<^verbatim>\<open>xmlns="u"\<close> in no namespace, with well-formedness required:
  the path for documents without namespaces returns, the namespace-aware path throws
  (\<^verbatim>\<open>_serializeAttributes\<close> lacks the check of the local name \<^verbatim>\<open>xmlns\<close> that
  \<^verbatim>\<open>_serializeAttributesNS\<close> makes).
\<close>

theorem fast_path_accepts_xmlns:
  "fst (serializeNode acceptAll False
          (Element \<lparr>localName = ''root'', prefix = None, namespaceURI = None,
             attributes = [\<lparr>aLocalName = ''xmlns'', aPrefix = None, aNamespaceURI = None,
                             aValue = ''u''\<rparr>]\<rparr> []) True False initial) = Inr ()
   \<and> fst (serializeNode acceptAll True
          (Element \<lparr>localName = ''root'', prefix = None, namespaceURI = None,
             attributes = [\<lparr>aLocalName = ''xmlns'', aPrefix = None, aNamespaceURI = None,
                             aValue = ''u''\<rparr>]\<rparr> []) True False initial)
       = Inl (InvalidStateError AttrLocalNameInvalid)"
  by code_simp

text \<open>
  Where the two paths do agree. On a tree in which no element and no attribute carries a
  namespace and, where well-formedness is required, no attribute is named \<^verbatim>\<open>xmlns\<close> or
  like a property of \<^verbatim>\<open>Object.prototype\<close>, the two paths end the same way (both return,
  or both throw the same error) and make the same calls to the output sink, for both
  values of the well-formedness flag.
\<close>

theorem paths_agree:
  "plain rwf n \<Longrightarrow>
     fst (serializeNode V True n rwf nde s) = fst (serializeNode V False n rwf nde s)
   \<and> events (snd (serializeNode V True n rwf nde s))
       = events (snd (serializeNode V False n rwf nde s))"
proof -
  assume "plain rwf n"
  then have "sameOut
      (serializeNodeNS V rwf nde n None 0
         (s\<lparr>level := 0, prefixIndex := 1, heap := [pm_set ''xml'' (Some XML) []],
            generated := []\<rparr>))
      (serializeNode' V rwf nde n (s\<lparr>level := 0\<rparr>))"
    by (rule serializeNodeNS_agree) simp
  then have "sameOut (serializeNode V True n rwf nde s) (serializeNode V False n rwf nde s)"
    unfolding serializeNode_def if_True if_False by (rule sameOut_rethrow)
  then show ?thesis by (simp add: sameOut_def)
qed

text \<open>
  The element \<^verbatim>\<open><root id="1">a&lt;b</root>\<close> with well-formedness required.
\<close>

theorem paths_agree_witness:
  "plain True (Element \<lparr>localName = ''root'', prefix = None, namespaceURI = None,
       attributes = [\<lparr>aLocalName = ''id'', aPrefix = None, aNamespaceURI = None,
                       aValue = ''1''\<rparr>]\<rparr> [Text ''a<b''])
   \<and> fst (serializeNode acceptAll False
        (Element \<lparr>localName = ''root'', prefix = None, namespaceURI = None,
           attributes = [\<lparr>aLocalName = ''id'', aPrefix = None, aNamespaceURI = None,
                           aValue = ''1''\<rparr>]\<rparr> [Text ''a<b'']) True False initial) = Inr ()
   \<and> events (snd (serializeNode acceptAll False
        (Element \<lparr>localName = ''root'', prefix = None, namespaceURI = None,
           attributes = [\<lparr>aLocalName = ''id'', aPrefix = None, aNamespaceURI = None,
                           aValue = ''1''\<rparr>]\<rparr> [Text ''a<b'']) True False initial))
     = [BeginElement ''root'', OpenTagBegin ''root'', AttributesEv [(None, None, ''id'', ''1'')],
        OpenTagEnd ''root'' False False, TextEv ''a&lt;b'', CloseTag ''root'',
        EndElement ''root'']"
proof -
  let ?T = "Element \<lparr>localName = ''root'', prefix = None, namespaceURI = None,
       attributes = [\<lparr>aLocalName = ''id'', aPrefix = None, aNamespaceURI = None,
                       aValue = ''1''\<rparr>]\<rparr> [Text ''a<b'']"
  have h: "plain True ?T" by (simp add: plainAttr_def objectPrototypeKeys_def)
  have a: "fst (serializeNode acceptAll True ?T True False initial) = Inr ()"
    by (simp add: eval_defs cong: andThen_weak_cong)
  have b: "events (snd (serializeNode acceptAll True ?T True False initial))
     = [BeginElement ''root'', OpenTagBegin ''root'', AttributesEv [(None, None, ''id'', ''1'')],
        OpenTagEnd ''root'' False False, TextEv ''a&lt;b'', CloseTag ''root'',
        EndElement ''root'']"
    by (simp add: eval_defs cong: andThen_weak_cong)
  note inst = paths_agree [OF h, of acceptAll False initial]
  have a': "fst (serializeNode acceptAll False ?T True False initial) = Inr ()"
    using inst a by simp
  have b': "events (snd (serializeNode acceptAll False ?T True False initial))
     = [BeginElement ''root'', OpenTagBegin ''root'', AttributesEv [(None, None, ''id'', ''1'')],
        OpenTagEnd ''root'' False False, TextEv ''a&lt;b'', CloseTag ''root'',
        EndElement ''root'']"
    using inst b by simp
  show ?thesis using h a' b' by (intro conjI)
qed

section \<open>Main results: duplicate attributes\<close>

text \<open>
  Claim C4, as the code has it. Let an attribute have the same namespace and local name as
  an attribute before it on the same element. When well-formedness is required, both
  attribute loops throw: the loop throws where it would on the attributes before, and
  throws the duplicate attributes error at this attribute otherwise; so the serialization
  of the element raises the invalid state error, on both paths. When it is not required,
  no error is raised: the path for documents without namespaces emits every attribute, in
  order; the namespace-aware path emits, in order, every attribute that is not in the XMLNS
  namespace, so both attributes of such a pair; attributes in the XMLNS namespace may be
  left out.
\<close>

theorem duplicate_attributes:
  "attrKey a \<in> set (map attrKey pre) \<Longrightarrow>
     serializeAttributesNS V (pre @ a # post) m lpm ign True nde [] s
       = andThen (serializeAttributesNS V pre m lpm ign True nde [] s)
           (\<lambda>r s1. fail DuplicateAttributes s1)
   \<and> serializeAttributes V (pre @ a # post) True nde []
       = (case serializeAttributes V pre True nde [] of
            Inl x \<Rightarrow> Inl x
          | Inr r \<Rightarrow> Inl (Error DuplicateAttributes))
   \<and> (attributes e = pre @ a # post \<longrightarrow>
        (\<exists>msg. fst (serializeNode V hasNamespaces (Element e cs) True nde s')
                 = Inl (InvalidStateError msg)))
   \<and> (\<exists>res. fst (serializeAttributesNS V (pre @ a # post) m lpm ign False nde [] s) = Inr res \<and>
          ownTuples res =
            map (\<lambda>a. (aNamespaceURI a, aLocalName a, escapeAttributeValue nde (aValue a)))
              (filter (\<lambda>a. aNamespaceURI a \<noteq> Some XMLNS) (pre @ a # post)))
   \<and> serializeAttributes V (pre @ a # post) False nde []
       = Inr (map (\<lambda>a. (None, None, aLocalName a, escapeAttributeValue nde (aValue a)))
                (pre @ a # post))"
proof (intro conjI impI)
  assume dup: "attrKey a \<in> set (map attrKey pre)"
  show "serializeAttributesNS V (pre @ a # post) m lpm ign True nde [] s
       = andThen (serializeAttributesNS V pre m lpm ign True nde [] s)
           (\<lambda>r s1. fail DuplicateAttributes s1)"
    using dup by (simp add: serializeAttributesNS_duplicate)
  show "serializeAttributes V (pre @ a # post) True nde []
       = (case serializeAttributes V pre True nde [] of
            Inl x \<Rightarrow> Inl x
          | Inr r \<Rightarrow> Inl (Error DuplicateAttributes))"
    using dup by (intro serializeAttributes_duplicate) (auto simp add: attrKey_def)
  show "\<exists>msg. fst (serializeNode V hasNamespaces (Element e cs) True nde s')
                 = Inl (InvalidStateError msg)" if "attributes e = pre @ a # post"
    using that dup by (rule serializeNode_duplicate)
  show "\<exists>res. fst (serializeAttributesNS V (pre @ a # post) m lpm ign False nde [] s) = Inr res \<and>
          ownTuples res =
            map (\<lambda>a. (aNamespaceURI a, aLocalName a, escapeAttributeValue nde (aValue a)))
              (filter (\<lambda>a. aNamespaceURI a \<noteq> Some XMLNS) (pre @ a # post))"
    by (rule serializeAttributesNS_lenient_tuples)
  show "serializeAttributes V (pre @ a # post) False nde []
       = Inr (map (\<lambda>a. (None, None, aLocalName a, escapeAttributeValue nde (aValue a)))
                (pre @ a # post))"
    by (rule serializeAttributes_lenient)
qed

text \<open>
  The attribute \<^verbatim>\<open>id="1"\<close> twice on one element.
\<close>

theorem duplicate_attributes_witness:
  "attrKey \<lparr>aLocalName = ''id'', aPrefix = None, aNamespaceURI = None, aValue = ''1''\<rparr>
     \<in> set (map attrKey
         [\<lparr>aLocalName = ''id'', aPrefix = None, aNamespaceURI = None, aValue = ''1''\<rparr>])
   \<and> serializeAttributesNS acceptAll
        ([\<lparr>aLocalName = ''id'', aPrefix = None, aNamespaceURI = None, aValue = ''1''\<rparr>]
          @ \<lparr>aLocalName = ''id'', aPrefix = None, aNamespaceURI = None, aValue = ''1''\<rparr> # [])
        0 [] False True False [] initial
      = fail DuplicateAttributes initial
   \<and> serializeAttributes acceptAll
        ([\<lparr>aLocalName = ''id'', aPrefix = None, aNamespaceURI = None, aValue = ''1''\<rparr>]
          @ \<lparr>aLocalName = ''id'', aPrefix = None, aNamespaceURI = None, aValue = ''1''\<rparr> # [])
        True False []
      = Inl (Error DuplicateAttributes)
   \<and> serializeAttributes acceptAll
        ([\<lparr>aLocalName = ''id'', aPrefix = None, aNamespaceURI = None, aValue = ''1''\<rparr>]
          @ \<lparr>aLocalName = ''id'', aPrefix = None, aNamespaceURI = None, aValue = ''1''\<rparr> # [])
        False False []
      = Inr [(None, None, ''id'', ''1''), (None, None, ''id'', ''1'')]"
proof -
  let ?x = "\<lparr>aLocalName = ''id'', aPrefix = None, aNamespaceURI = None, aValue = ''1''\<rparr>"
  have h: "attrKey ?x \<in> set (map attrKey [?x])" by simp
  note inst = duplicate_attributes [OF h, where V = acceptAll and post = "[]" and m = 0
      and lpm = "[]" and ign = False and nde = False and s = initial]
  have a: "serializeAttributesNS acceptAll ([?x] @ ?x # []) 0 [] False True False [] initial
      = fail DuplicateAttributes initial"
    using inst [THEN conjunct1]
    by (simp add: eval_defs cong: andThen_weak_cong)
  have b: "serializeAttributes acceptAll ([?x] @ ?x # []) True False []
      = Inl (Error DuplicateAttributes)"
    using inst [THEN conjunct2, THEN conjunct1]
    by (simp add: eval_defs)
  have c: "serializeAttributes acceptAll ([?x] @ ?x # []) False False []
      = Inr [(None, None, ''id'', ''1''), (None, None, ''id'', ''1'')]"
    using inst [THEN conjunct2, THEN conjunct2, THEN conjunct2, THEN conjunct2]
    by (simp add: eval_defs)
  show ?thesis using h a b c by (intro conjI)
qed

text \<open>
  Two equal default namespace declarations on an element in no namespace, well-formedness
  not required: no error is raised, and neither attribute is emitted.
\<close>

theorem duplicate_declarations_not_emitted:
  "fst (serializeNode acceptAll True
     (Element \<lparr>localName = ''e'', prefix = None, namespaceURI = None, attributes =
        [\<lparr>aLocalName = ''xmlns'', aPrefix = None, aNamespaceURI = Some XMLNS, aValue = ''urn:x''\<rparr>,
         \<lparr>aLocalName = ''xmlns'', aPrefix = None, aNamespaceURI = Some XMLNS, aValue = ''urn:x''\<rparr>]\<rparr>
        []) False False initial) = Inr ()
   \<and> events (snd (serializeNode acceptAll True
     (Element \<lparr>localName = ''e'', prefix = None, namespaceURI = None, attributes =
        [\<lparr>aLocalName = ''xmlns'', aPrefix = None, aNamespaceURI = Some XMLNS, aValue = ''urn:x''\<rparr>,
         \<lparr>aLocalName = ''xmlns'', aPrefix = None, aNamespaceURI = Some XMLNS, aValue = ''urn:x''\<rparr>]\<rparr>
        []) False False initial))
     = [BeginElement ''e'', OpenTagBegin ''e'', AttributesEv [], OpenTagEnd ''e'' True False,
        EndElement ''e'']"
  by (simp add: eval_defs cong: andThen_weak_cong)

section \<open>Main results: default namespace declarations\<close>

text \<open>
  Claim C5, as the code has it; the events below are those of an element whose
  serialization returned.

  (1) Let the element be in the namespace \<open>x\<close>, and let \<^verbatim>\<open>xmlns="x"\<close> be its only attribute
  that is named \<^verbatim>\<open>xmlns\<close> or declares a default namespace. When the context namespace is
  \<open>x\<close> already, or \<open>x\<close> is the XML namespace, its attributes event holds no tuple for a
  default namespace declaration. Otherwise it holds exactly one, the tuple of the literal
  attribute with the escaped \<open>x\<close> as value; this tuple has no prefix, and so is written
  \<^verbatim>\<open>xmlns="x"\<close>, when no prefix of the element's map is bound to the XMLNS namespace and
  \<open>x\<close> is not the XMLNS namespace.

  (2) For an element whose namespace is the context namespace, the element step pushes no
  declaration and hands the same context namespace to the children; when the element has
  no attributes, its attributes event is empty.

  (3) Let the namespace of the element differ from the context namespace, let its prefix
  not be \<^verbatim>\<open>xmlns\<close>, and let it not be an element without prefix in the XML namespace that
  declares the XML namespace as its default namespace. Then one of these holds: the
  element's map gave a prefix for the namespace, and the name is written with it; or the
  name is written with a prefix \<open>p\<close> and the attributes event holds the declaration
  \<^verbatim>\<open>xmlns:p\<close> of the namespace; or the name is written without prefix and the attributes
  event holds the default declaration of the namespace pushed by the element step; or the
  name is written without prefix and the attributes event holds the tuple of a literal
  default declaration of the element whose value is the namespace (a tuple without
  prefix when no prefix of the element's map is bound to the XMLNS namespace).
\<close>

theorem default_namespace_declarations:
  "(filter (\<lambda>a. aLocalName a = ''xmlns'' \<or> declaresDefault a) (attributes e)
        = [defaultDeclaration x]
      \<and> namespaceURI e = Some x \<and> fst (openElementNS V e ns pm rwf nde s) = Inr opened \<longrightarrow>
      (\<exists>L s2 cp. snd (openElementNS V e ns pm rwf nde s) = emit (AttributesEv L) s2
         \<and> filter namesDefault L
             = (if ns = Some x \<or> x = XML then []
                else [(Some XMLNS, cp, ''xmlns'', escapeAttributeValue nde x)])
         \<and> (pm_get None (Some XMLNS) (ownMap e pm s) = None \<and> x \<noteq> XMLNS \<longrightarrow>
              cp = None)))
   \<and> (ns = namespaceURI e \<longrightarrow>
        resolveNameNS V e ns m lpm ldn rwf nde s =
          ok ((if namespaceURI e = Some XML then ''xml:'' @ localName e else localName e),
              ns, ldn \<noteq> None, [])
             (beginTag (if namespaceURI e = Some XML then ''xml:'' @ localName e
                        else localName e) s))
   \<and> (ns = namespaceURI e \<and> attributes e = []
        \<and> fst (openElementNS V e ns pm rwf nde s) = Inr opened \<longrightarrow>
        snd (openElementNS V e ns pm rwf nde s)
          = emit (AttributesEv []) (beginTag (fst opened) (snd (copyMap pm s)))
        \<and> fst (snd opened) = ns)
   \<and> (namespaceURI e \<noteq> ns \<and> prefix e \<noteq> Some ''xmlns''
        \<and> \<not> (prefix e = None \<and> namespaceURI e = Some XML
               \<and> localDefault (attributes e) = Some XML)
        \<and> fst (openElementNS V e ns pm rwf nde s) = Inr opened \<longrightarrow>
        (\<exists>L s2. snd (openElementNS V e ns pm rwf nde s) = emit (AttributesEv L) s2 \<and>
           ((\<exists>cp. pm_get (prefix e) (namespaceURI e) (ownMap e pm s) = Some cp
               \<and> fst opened = cp @ '':'' @ localName e)
            \<or> (\<exists>p v. fst opened = p @ '':'' @ localName e
               \<and> (None, Some ''xmlns'', p, v) \<in> set L
               \<and> serializeAttributeValue V (namespaceURI e) rwf nde = Inr v)
            \<or> (\<exists>v. fst opened = localName e \<and> (None, None, ''xmlns'', v) \<in> set L
               \<and> serializeAttributeValue V (namespaceURI e) rwf nde = Inr v)
            \<or> (fst opened = localName e \<and> prefix e = None
               \<and> (\<exists>a cp. a \<in> set (attributes e) \<and> declaresDefault a
                     \<and> Some (aValue a) = namespaceURI e
                     \<and> (Some XMLNS, cp, aLocalName a, escapeAttributeValue nde (aValue a))
                          \<in> set L
                     \<and> (pm_get None (Some XMLNS) (ownMap e pm s) = None \<longrightarrow> cp = None))))))"
proof (intro conjI impI; (elim conjE)?)
  assume only: "filter (\<lambda>a. aLocalName a = ''xmlns'' \<or> declaresDefault a) (attributes e)
        = [defaultDeclaration x]"
    and own: "namespaceURI e = Some x"
    and opened: "fst (openElementNS V e ns pm rwf nde s) = Inr opened"
  let ?d = "defaultDeclaration x"
  let ?m = "length (heap s)"
  let ?rec = "recordNamespaceInformation (attributes e) ?m [] None (snd (copyMap pm s))"
  let ?res = "resolveNameNS V e ns ?m (snd (fst ?rec)) (fst (fst ?rec)) rwf nde (snd ?rec)"
  have d: "declaresDefault ?d" "aLocalName ?d = ''xmlns''" "aValue ?d = x"
    by (simp_all add: declaresDefault_def defaultDeclaration_def)
  have "filter declaresDefault (attributes e) = [?d]"
    using filter_singleton_sub [OF only, of declaresDefault] d by simp
  then have ldn: "fst (fst ?rec) = Some x"
    using d by (simp add: recordNamespaceInformation_default)
  have "?d \<in> set (filter (\<lambda>a. aLocalName a = ''xmlns'' \<or> declaresDefault a) (attributes e))"
    unfolding only by simp
  then have mem: "?d \<in> set (attributes e)" by simp
  have single: "a = ?d" if "a \<in> set (attributes e)" "aLocalName a = ''xmlns'' \<or> declaresDefault a"
    for a
  proof -
    have "a \<in> set (filter (\<lambda>a. aLocalName a = ''xmlns'' \<or> declaresDefault a) (attributes e))"
      using that by simp
    then show ?thesis unfolding only by simp
  qed
  have count: "filter (\<lambda>a. a = ?d) (attributes e) = [?d]"
    using filter_singleton_sub [OF only, of "\<lambda>a. a = ?d"] d by auto
  from opened obtain name rest s2 where
    name: "fst ?res = Inr name"
    and fin: "snd (openElementNS V e ns pm rwf nde s)
           = emit (AttributesEv (snd (snd (snd name)) @ rest)) s2"
    and rest: "fst (serializeAttributesNS V (attributes e) ?m (snd (fst ?rec))
            (fst (snd (snd name))) rwf nde [] (snd ?res)) = Inr rest"
    by (rule openElementNS_Inr)
  have same: "fst (fst ?rec) = namespaceURI e" "fst (fst ?rec) \<noteq> None"
    using ldn own by simp_all
  note lit = resolveNameNS_literal [OF same name]
  from serializeAttributesNS_literal [OF single rest] obtain cps where
    cps: "filter namesDefault rest
            = map (\<lambda>cp. (Some XMLNS, cp, ''xmlns'', escapeAttributeValue nde x)) cps"
      "length cps = (if x = XML \<or> fst (snd (snd name)) then 0
                     else length (filter (\<lambda>a. a = ?d) (attributes e)))"
      "noXmlnsAt ?m (snd ?res) \<longrightarrow> list_all (\<lambda>cp. cp = None) cps"
    by blast
  have len: "length cps = (if ns = Some x \<or> x = XML then 0 else 1)"
    using cps(2) lit(2) own count by auto
  have none: "noXmlnsAt ?m (snd ?res)"
    if "pm_get None (Some XMLNS) (ownMap e pm s) = None" "x \<noteq> XMLNS"
  proof -
    have "namespaceURI e \<noteq> Some XMLNS" using that(2) own by simp
    moreover have "noXmlnsAt ?m (snd ?rec)"
      using that(1) by (simp add: noXmlnsAt_def ownMap_def)
    ultimately show ?thesis by (intro noXmlnsAt_resolveNameNS)
  qed
  let ?L = "snd (snd (snd name)) @ rest"
  show "\<exists>L s2 cp. snd (openElementNS V e ns pm rwf nde s) = emit (AttributesEv L) s2
         \<and> filter namesDefault L
             = (if ns = Some x \<or> x = XML then []
                else [(Some XMLNS, cp, ''xmlns'', escapeAttributeValue nde x)])
         \<and> (pm_get None (Some XMLNS) (ownMap e pm s) = None \<and> x \<noteq> XMLNS \<longrightarrow>
              cp = None)"
  proof (cases "ns = Some x \<or> x = XML")
    case True
    then have "cps = []" using len by simp
    then have "filter namesDefault ?L = []" using cps(1) lit(1) by simp
    then show ?thesis using fin True by auto
  next
    case False
    then obtain cp where one: "cps = [cp]" using len by (cases cps) auto
    have "filter namesDefault ?L = [(Some XMLNS, cp, ''xmlns'', escapeAttributeValue nde x)]"
      using cps(1) lit(1) one by simp
    moreover have "cp = None"
      if "pm_get None (Some XMLNS) (ownMap e pm s) = None \<and> x \<noteq> XMLNS"
      using cps(3) none that one by simp
    ultimately show ?thesis using fin False by auto
  qed
next
  assume "ns = namespaceURI e"
  then show "resolveNameNS V e ns m lpm ldn rwf nde s =
          ok ((if namespaceURI e = Some XML then ''xml:'' @ localName e else localName e),
              ns, ldn \<noteq> None, [])
             (beginTag (if namespaceURI e = Some XML then ''xml:'' @ localName e
                        else localName e) s)"
    by (rule resolveNameNS_same)
next
  assume same: "ns = namespaceURI e" and none: "attributes e = []"
    and opened: "fst (openElementNS V e ns pm rwf nde s) = Inr opened"
  have valid: "\<not> (rwf \<and> (includes_str '':'' (localName e) \<or> \<not> xml_isName V (localName e)))"
    using opened
    by (cases "rwf \<and> (includes_str '':'' (localName e) \<or> \<not> xml_isName V (localName e))")
       (simp_all add: openElementNS_def)
  let ?q = "if namespaceURI e = Some XML then ''xml:'' @ localName e else localName e"
  have eq: "openElementNS V e ns pm rwf nde s
          = ok (?q, ns, length (heap s))
              (emit (AttributesEv []) (beginTag ?q (snd (copyMap pm s))))"
    using none
    by (simp add: openElementNS_def if_not_P [OF valid] Let_def resolveNameNS_same [OF same]
          copyMap_def)
  then have "opened = (?q, ns, length (heap s))" using opened by simp
  then show "snd (openElementNS V e ns pm rwf nde s)
          = emit (AttributesEv []) (beginTag (fst opened) (snd (copyMap pm s)))"
    and "fst (snd opened) = ns"
    using eq by simp_all
next
  assume differs: "namespaceURI e \<noteq> ns" and noxmlns: "prefix e \<noteq> Some ''xmlns''"
    and noxml: "\<not> (prefix e = None \<and> namespaceURI e = Some XML
               \<and> localDefault (attributes e) = Some XML)"
    and opened: "fst (openElementNS V e ns pm rwf nde s) = Inr opened"
  let ?m = "length (heap s)"
  let ?rec = "recordNamespaceInformation (attributes e) ?m [] None (snd (copyMap pm s))"
  let ?ldn = "fst (fst ?rec)"
  let ?lpm = "snd (fst ?rec)"
  let ?res = "resolveNameNS V e ns ?m ?lpm ?ldn rwf nde (snd ?rec)"
  have ldn: "?ldn = localDefault (attributes e)"
    by (rule recordNamespaceInformation_localDefault)
  have own: "theMap (snd ?rec) ?m = ownMap e pm s" by (simp add: ownMap_def)
  have ne: "ns \<noteq> namespaceURI e" using differs by simp
  from opened obtain name rest s2 where
    name: "fst ?res = Inr name"
    and op: "opened = (fst name, fst (snd name), ?m)"
    and fin: "snd (openElementNS V e ns pm rwf nde s)
           = emit (AttributesEv (snd (snd (snd name)) @ rest)) s2"
    and rest: "fst (serializeAttributesNS V (attributes e) ?m ?lpm
            (fst (snd (snd name))) rwf nde [] (snd ?res)) = Inr rest"
    by (rule openElementNS_Inr)
  let ?L = "snd (snd (snd name)) @ rest"
  have q: "fst opened = fst name" using op by simp
  have "(\<exists>cp. pm_get (prefix e) (namespaceURI e) (ownMap e pm s) = Some cp
               \<and> fst opened = cp @ '':'' @ localName e)
            \<or> (\<exists>p v. fst opened = p @ '':'' @ localName e
               \<and> (None, Some ''xmlns'', p, v) \<in> set ?L
               \<and> serializeAttributeValue V (namespaceURI e) rwf nde = Inr v)
            \<or> (\<exists>v. fst opened = localName e \<and> (None, None, ''xmlns'', v) \<in> set ?L
               \<and> serializeAttributeValue V (namespaceURI e) rwf nde = Inr v)
            \<or> (fst opened = localName e \<and> prefix e = None
               \<and> (\<exists>a cp. a \<in> set (attributes e) \<and> declaresDefault a
                     \<and> Some (aValue a) = namespaceURI e
                     \<and> (Some XMLNS, cp, aLocalName a, escapeAttributeValue nde (aValue a))
                          \<in> set ?L
                     \<and> (pm_get None (Some XMLNS) (ownMap e pm s) = None \<longrightarrow> cp = None)))"
  proof (cases rule: resolveNameNS_cases [where ns = ns and e = e and rwf = rwf and ldn = ?ldn
        and pm = "theMap (snd ?rec) ?m"])
    case same
    then show ?thesis using ne by simp
  next
    case xmlns
    then show ?thesis using noxmlns by simp
  next
    case (candidate cp)
    have "pm_get (prefix e) (namespaceURI e) (ownMap e pm s) = Some cp"
      using candidate(3) noxmlns unfolding own
      by (simp add: elementCandidate_def split: if_splits)
    moreover have "fst name = cp @ '':'' @ localName e"
      using name candidate by (auto simp add: resolveNameNS_candidate)
    ultimately show ?thesis using q by simp
  next
    case (prefix p)
    then have "fst (declarePrefix V e p ns ?m ?lpm ?ldn rwf nde (snd ?rec)) = Inr name"
      using name by (simp add: resolveNameNS_prefix)
    then show ?thesis unfolding q by (elim declarePrefix_Inr) auto
  next
    case default
    then have "fst (declareDefault V e rwf nde (snd ?rec)) = Inr name"
      using name by (simp add: resolveNameNS_default)
    then show ?thesis unfolding q by (elim declareDefault_Inr) auto
  next
    case declared
    have nm: "name = (localName e, namespaceURI e, False, [])"
      using name declared by (auto simp add: resolveNameNS_declared)
    obtain y where y: "localDefault (attributes e) = Some y" "namespaceURI e = Some y"
      using declared(4,5) ldn by auto
    have "y \<noteq> XML" using noxml declared(3) y by auto
    moreover obtain a where a: "a \<in> set (attributes e)" "declaresDefault a" "aValue a = y"
      using localDefault_Some [OF y(1)] by blast
    moreover have "fst (serializeAttributesNS V (attributes e) ?m ?lpm False rwf nde []
                      (snd ?res)) = Inr rest"
      using rest nm by simp
    ultimately obtain cp where
      cp: "(Some XMLNS, cp, aLocalName a, escapeAttributeValue nde (aValue a)) \<in> set rest"
        "noXmlnsAt ?m (snd ?res) \<longrightarrow> cp = None"
      using serializeAttributesNS_emits_default [of V "attributes e" ?m ?lpm rwf nde "[]"
          "snd ?res" rest a] by auto
    have "snd ?res = beginTag (localName e) (snd ?rec)"
      using declared by (simp add: resolveNameNS_declared)
    moreover have "noXmlnsAt ?m (snd ?rec)"
      if "pm_get None (Some XMLNS) (ownMap e pm s) = None"
      using that by (simp add: noXmlnsAt_def ownMap_def)
    ultimately have "noXmlnsAt ?m (snd ?res)"
      if "pm_get None (Some XMLNS) (ownMap e pm s) = None"
      using that by simp
    then have "pm_get None (Some XMLNS) (ownMap e pm s) = None \<longrightarrow> cp = None"
      using cp(2) by blast
    then show ?thesis using q nm declared(3) a y cp(1) by auto
  qed
  with fin show "\<exists>L s2. snd (openElementNS V e ns pm rwf nde s) = emit (AttributesEv L) s2 \<and>
           ((\<exists>cp. pm_get (prefix e) (namespaceURI e) (ownMap e pm s) = Some cp
               \<and> fst opened = cp @ '':'' @ localName e)
            \<or> (\<exists>p v. fst opened = p @ '':'' @ localName e
               \<and> (None, Some ''xmlns'', p, v) \<in> set L
               \<and> serializeAttributeValue V (namespaceURI e) rwf nde = Inr v)
            \<or> (\<exists>v. fst opened = localName e \<and> (None, None, ''xmlns'', v) \<in> set L
               \<and> serializeAttributeValue V (namespaceURI e) rwf nde = Inr v)
            \<or> (fst opened = localName e \<and> prefix e = None
               \<and> (\<exists>a cp. a \<in> set (attributes e) \<and> declaresDefault a
                     \<and> Some (aValue a) = namespaceURI e
                     \<and> (Some XMLNS, cp, aLocalName a, escapeAttributeValue nde (aValue a))
                          \<in> set L
                     \<and> (pm_get None (Some XMLNS) (ownMap e pm s) = None \<longrightarrow> cp = None))))"
    by (intro exI conjI)
qed

text \<open>
  The element \<^verbatim>\<open><root xmlns="urn:a">\<close> in the namespace \<^verbatim>\<open>urn:a\<close> at the top (one
  declaration, written \<^verbatim>\<open>xmlns="urn:a"\<close>) and below a parent in \<^verbatim>\<open>urn:a\<close> (none); an
  element in \<^verbatim>\<open>urn:b\<close> without attributes below a parent in \<^verbatim>\<open>urn:b\<close>; the element
  \<^verbatim>\<open><child xmlns="urn:b">\<close> in \<^verbatim>\<open>urn:b\<close> below a parent in \<^verbatim>\<open>urn:a\<close>.
\<close>

theorem default_namespace_declarations_witness:
  "(\<exists>L s2. snd (openElementNS acceptAll
          \<lparr>localName = ''root'', prefix = None, namespaceURI = Some ''urn:a'',
             attributes = [defaultDeclaration ''urn:a'']\<rparr>
          None 0 True False (initial\<lparr>heap := [pm_set ''xml'' (Some XML) []]\<rparr>))
            = emit (AttributesEv L) s2
         \<and> filter namesDefault L = [(Some XMLNS, None, ''xmlns'', ''urn:a'')])
   \<and> (\<exists>L s2. snd (openElementNS acceptAll
          \<lparr>localName = ''root'', prefix = None, namespaceURI = Some ''urn:a'',
             attributes = [defaultDeclaration ''urn:a'']\<rparr>
          (Some ''urn:a'') 0 True False (initial\<lparr>heap := [pm_set ''xml'' (Some XML) []]\<rparr>))
            = emit (AttributesEv L) s2
         \<and> filter namesDefault L = [])
   \<and> snd (openElementNS acceptAll
          \<lparr>localName = ''g'', prefix = None, namespaceURI = Some ''urn:b'', attributes = []\<rparr>
          (Some ''urn:b'') 0 True False (initial\<lparr>heap := [pm_set ''xml'' (Some XML) []]\<rparr>))
       = emit (AttributesEv [])
           (beginTag ''g'' (snd (copyMap 0 (initial\<lparr>heap := [pm_set ''xml'' (Some XML) []]\<rparr>))))
   \<and> (\<exists>L s2. snd (openElementNS acceptAll
          \<lparr>localName = ''child'', prefix = None, namespaceURI = Some ''urn:b'',
             attributes = [defaultDeclaration ''urn:b'']\<rparr>
          (Some ''urn:a'') 0 True False (initial\<lparr>heap := [pm_set ''xml'' (Some XML) []]\<rparr>))
            = emit (AttributesEv L) s2
         \<and> (\<exists>a cp. a \<in> set [defaultDeclaration ''urn:b''] \<and> declaresDefault a
               \<and> aValue a = ''urn:b''
               \<and> (Some XMLNS, cp, aLocalName a, escapeAttributeValue False (aValue a)) \<in> set L))"
proof -
  let ?root = "\<lparr>localName = ''root'', prefix = None, namespaceURI = Some ''urn:a'',
                 attributes = [defaultDeclaration ''urn:a'']\<rparr>"
  let ?g = "\<lparr>localName = ''g'', prefix = None, namespaceURI = Some ''urn:b'', attributes = []\<rparr>"
  let ?child = "\<lparr>localName = ''child'', prefix = None, namespaceURI = Some ''urn:b'',
                  attributes = [defaultDeclaration ''urn:b'']\<rparr>"
  let ?S = "initial\<lparr>heap := [pm_set ''xml'' (Some XML) []]\<rparr>"
  have only: "filter (\<lambda>a. aLocalName a = ''xmlns'' \<or> declaresDefault a) (attributes ?root)
                = [defaultDeclaration ''urn:a'']"
    by (simp add: defaultDeclaration_def declaresDefault_def)
  have own: "namespaceURI ?root = Some ''urn:a''" by simp
  have top: "fst (openElementNS acceptAll ?root None 0 True False ?S)
               = Inr (''root'', Some ''urn:a'', 1)"
    by (simp add: defaultDeclaration_def eval_defs cong: andThen_weak_cong)
  have nested: "fst (openElementNS acceptAll ?root (Some ''urn:a'') 0 True False ?S)
               = Inr (''root'', Some ''urn:a'', 1)"
    by (simp add: defaultDeclaration_def eval_defs cong: andThen_weak_cong)
  have inner: "fst (openElementNS acceptAll ?g (Some ''urn:b'') 0 True False ?S)
               = Inr (''g'', Some ''urn:b'', 1)"
    by (simp add: eval_defs cong: andThen_weak_cong)
  have other: "fst (openElementNS acceptAll ?child (Some ''urn:a'') 0 True False ?S)
               = Inr (''child'', Some ''urn:b'', 1)"
    by (simp add: defaultDeclaration_def eval_defs cong: andThen_weak_cong)
  have free: "pm_get None (Some XMLNS) (ownMap ?root 0 ?S) = None" "''urn:a'' \<noteq> XMLNS"
    by (simp_all add: ownMap_def defaultDeclaration_def eval_defs)
  have esc: "escapeAttributeValue False ''urn:a'' = ''urn:a''"
    by (simp add: escapeAttributeValue_def)
  have a: "\<exists>L s2. snd (openElementNS acceptAll ?root None 0 True False ?S)
            = emit (AttributesEv L) s2
         \<and> filter namesDefault L = [(Some XMLNS, None, ''xmlns'', ''urn:a'')]"
    using default_namespace_declarations [where e = ?root and x = "''urn:a''" and V = acceptAll
        and ns = None and pm = 0 and rwf = True and nde = False and s = ?S
        and opened = "(''root'', Some ''urn:a'', 1)", THEN conjunct1] only own top free esc
    by (auto simp add: XML_def)
  have b: "\<exists>L s2. snd (openElementNS acceptAll ?root (Some ''urn:a'') 0 True False ?S)
            = emit (AttributesEv L) s2
         \<and> filter namesDefault L = []"
    using default_namespace_declarations [where e = ?root and x = "''urn:a''" and V = acceptAll
        and ns = "Some ''urn:a''" and pm = 0 and rwf = True and nde = False and s = ?S
        and opened = "(''root'', Some ''urn:a'', 1)", THEN conjunct1] only own nested
    by auto
  have c: "snd (openElementNS acceptAll ?g (Some ''urn:b'') 0 True False ?S)
       = emit (AttributesEv []) (beginTag ''g'' (snd (copyMap 0 ?S)))"
    using default_namespace_declarations [where e = ?g and V = acceptAll
        and ns = "Some ''urn:b''" and pm = 0 and rwf = True and nde = False and s = ?S
        and opened = "(''g'', Some ''urn:b'', 1)",
        THEN conjunct2, THEN conjunct2, THEN conjunct1] inner
    by simp
  have ld: "localDefault (attributes ?child) = Some ''urn:b''"
    by (simp add: localDefault_def declaresDefault_def defaultDeclaration_def)
  have nomap: "pm_get (prefix ?child) (namespaceURI ?child) (ownMap ?child 0 ?S) = None"
    by (simp add: ownMap_def defaultDeclaration_def eval_defs)
  have colon: "''child'' \<noteq> p @ '':'' @ ''child''" for p :: string
  proof
    assume "''child'' = p @ '':'' @ ''child''"
    then have "length ''child'' = length (p @ '':'' @ ''child'')" by (rule arg_cong)
    then show False by simp
  qed
  have sav: "serializeAttributeValue acceptAll (Some ''urn:b'') True False = Inr ''urn:b''"
    by (simp add: eval_defs)
  note inst = default_namespace_declarations [where e = ?child and V = acceptAll
        and ns = "Some ''urn:a''" and pm = 0 and rwf = True and nde = False and s = ?S
        and opened = "(''child'', Some ''urn:b'', 1)",
        THEN conjunct2, THEN conjunct2, THEN conjunct2, rule_format]
  have hyp: "namespaceURI ?child \<noteq> Some ''urn:a'' \<and> prefix ?child \<noteq> Some ''xmlns''
        \<and> \<not> (prefix ?child = None \<and> namespaceURI ?child = Some XML
               \<and> localDefault (attributes ?child) = Some XML)
        \<and> fst (openElementNS acceptAll ?child (Some ''urn:a'') 0 True False ?S)
            = Inr (''child'', Some ''urn:b'', 1)"
    using other by (simp add: XML_def)
  from inst [OF hyp] obtain L s2 where
    both: "snd (openElementNS acceptAll ?child (Some ''urn:a'') 0 True False ?S)
            = emit (AttributesEv L) s2
    \<and> ((\<exists>cp. pm_get (prefix ?child) (namespaceURI ?child) (ownMap ?child 0 ?S) = Some cp
               \<and> fst (''child'', Some ''urn:b'', 1::nat) = cp @ '':'' @ localName ?child)
            \<or> (\<exists>p v. fst (''child'', Some ''urn:b'', 1::nat) = p @ '':'' @ localName ?child
               \<and> (None, Some ''xmlns'', p, v) \<in> set L
               \<and> serializeAttributeValue acceptAll (namespaceURI ?child) True False = Inr v)
            \<or> (\<exists>v. fst (''child'', Some ''urn:b'', 1::nat) = localName ?child
               \<and> (None, None, ''xmlns'', v) \<in> set L
               \<and> serializeAttributeValue acceptAll (namespaceURI ?child) True False = Inr v)
            \<or> (fst (''child'', Some ''urn:b'', 1::nat) = localName ?child \<and> prefix ?child = None
               \<and> (\<exists>a cp. a \<in> set (attributes ?child) \<and> declaresDefault a
                     \<and> Some (aValue a) = namespaceURI ?child
                     \<and> (Some XMLNS, cp, aLocalName a, escapeAttributeValue False (aValue a))
                          \<in> set L
                     \<and> (pm_get None (Some XMLNS) (ownMap ?child 0 ?S) = None \<longrightarrow> cp = None))))"
    by (elim exE) (rule that)
  note fin = both [THEN conjunct1] and cases = both [THEN conjunct2]
  have Lval: "events (snd (openElementNS acceptAll ?child (Some ''urn:a'') 0 True False ?S))
      = [BeginElement ''child'', OpenTagBegin ''child'',
         AttributesEv [(Some XMLNS, None, ''xmlns'', ''urn:b'')]]"
    by (simp add: defaultDeclaration_def eval_defs cong: andThen_weak_cong)
  have L: "L = [(Some XMLNS, None, ''xmlns'', ''urn:b'')]"
    using Lval unfolding fin by simp
  have d: "\<exists>a cp. a \<in> set [defaultDeclaration ''urn:b''] \<and> declaresDefault a
               \<and> aValue a = ''urn:b''
               \<and> (Some XMLNS, cp, aLocalName a, escapeAttributeValue False (aValue a)) \<in> set L"
    using cases nomap colon unfolding L by auto
  show ?thesis using a b c fin d by (intro conjI) blast+
qed

text \<open>
  Where an element is written without the declaration of its namespace:
  \<^item> \<open>redeclared\<close>: the child declares \<^verbatim>\<open>xmlns="urn:a"\<close>, is in \<^verbatim>\<open>urn:a\<close> and inherits
    \<^verbatim>\<open>urn:a\<close>; it is written with no declaration, not with one;
  \<^item> \<open>xmlBare\<close>: the element is in the XML namespace, which differs from the context
    namespace, and is written as \<^verbatim>\<open><foo/>\<close>: no prefix and no declaration;
  \<^item> \<open>xmlnsPrefixed\<close>, well-formedness not required: the name is written with the
    prefix \<^verbatim>\<open>xmlns\<close> and nothing declares the namespace;
  \<^item> \<open>xmlnsBound\<close>, well-formedness not required: the literal \<^verbatim>\<open>xmlns="urn:a"\<close> of the
    child is written with the prefix \<^verbatim>\<open>p\<close>, so not as a default namespace declaration.
  \<^item> \<open>xmlnsElement\<close>, well-formedness not required: the element step binds the prefix
    \<^verbatim>\<open>q\<close> to the XMLNS namespace, and the literal declaration is written with it.
\<close>

theorem default_declarations_missing:
  "fst (serializeNode acceptAll True redeclared True False initial) = Inr ()
   \<and> events (snd (serializeNode acceptAll True redeclared True False initial))
     = [BeginElement ''root'', OpenTagBegin ''root'',
        AttributesEv [(Some XMLNS, None, ''xmlns'', ''urn:a'')], OpenTagEnd ''root'' False False,
        BeginElement ''child'', OpenTagBegin ''child'', AttributesEv [],
        OpenTagEnd ''child'' True False, EndElement ''child'',
        CloseTag ''root'', EndElement ''root'']
   \<and> fst (serializeNode acceptAll True xmlBare True False initial) = Inr ()
   \<and> events (snd (serializeNode acceptAll True xmlBare True False initial))
     = [BeginElement ''foo'', OpenTagBegin ''foo'', AttributesEv [],
        OpenTagEnd ''foo'' True False, EndElement ''foo'']
   \<and> fst (serializeNode acceptAll True xmlnsPrefixed False False initial) = Inr ()
   \<and> events (snd (serializeNode acceptAll True xmlnsPrefixed False False initial))
     = [BeginElement ''xmlns:foo'', OpenTagBegin ''xmlns:foo'', AttributesEv [],
        OpenTagEnd ''xmlns:foo'' True False, EndElement ''xmlns:foo'']
   \<and> fst (serializeNode acceptAll True xmlnsBound False False initial) = Inr ()
   \<and> events (snd (serializeNode acceptAll True xmlnsBound False False initial))
     = [BeginElement ''root'', OpenTagBegin ''root'',
        AttributesEv [(Some XMLNS, Some ''xmlns'', ''p'', XMLNS)],
        OpenTagEnd ''root'' False False,
        BeginElement ''child'', OpenTagBegin ''child'',
        AttributesEv [(Some XMLNS, Some ''p'', ''xmlns'', ''urn:a'')],
        OpenTagEnd ''child'' True False, EndElement ''child'',
        CloseTag ''root'', EndElement ''root'']
   \<and> fst (serializeNode acceptAll True xmlnsElement False False initial) = Inr ()
   \<and> events (snd (serializeNode acceptAll True xmlnsElement False False initial))
     = [BeginElement ''q:foo'', OpenTagBegin ''q:foo'',
        AttributesEv [(None, Some ''xmlns'', ''q'', XMLNS),
                      (Some XMLNS, Some ''q'', ''xmlns'', XMLNS)],
        OpenTagEnd ''q:foo'' True False, EndElement ''q:foo'']"
proof -
  have a: "fst (serializeNode acceptAll True redeclared True False initial) = Inr ()"
    "events (snd (serializeNode acceptAll True redeclared True False initial))
     = [BeginElement ''root'', OpenTagBegin ''root'',
        AttributesEv [(Some XMLNS, None, ''xmlns'', ''urn:a'')], OpenTagEnd ''root'' False False,
        BeginElement ''child'', OpenTagBegin ''child'', AttributesEv [],
        OpenTagEnd ''child'' True False, EndElement ''child'',
        CloseTag ''root'', EndElement ''root'']"
    by (simp_all add: redeclared_def defaultDeclaration_def eval_defs cong: andThen_weak_cong)
  have b: "fst (serializeNode acceptAll True xmlBare True False initial) = Inr ()"
    "events (snd (serializeNode acceptAll True xmlBare True False initial))
     = [BeginElement ''foo'', OpenTagBegin ''foo'', AttributesEv [],
        OpenTagEnd ''foo'' True False, EndElement ''foo'']"
    by (simp_all add: xmlBare_def defaultDeclaration_def eval_defs cong: andThen_weak_cong)
  have c: "fst (serializeNode acceptAll True xmlnsPrefixed False False initial) = Inr ()"
    "events (snd (serializeNode acceptAll True xmlnsPrefixed False False initial))
     = [BeginElement ''xmlns:foo'', OpenTagBegin ''xmlns:foo'', AttributesEv [],
        OpenTagEnd ''xmlns:foo'' True False, EndElement ''xmlns:foo'']"
    by (simp_all add: xmlnsPrefixed_def eval_defs cong: andThen_weak_cong)
  have d: "fst (serializeNode acceptAll True xmlnsBound False False initial) = Inr ()"
    "events (snd (serializeNode acceptAll True xmlnsBound False False initial))
     = [BeginElement ''root'', OpenTagBegin ''root'',
        AttributesEv [(Some XMLNS, Some ''xmlns'', ''p'', XMLNS)],
        OpenTagEnd ''root'' False False,
        BeginElement ''child'', OpenTagBegin ''child'',
        AttributesEv [(Some XMLNS, Some ''p'', ''xmlns'', ''urn:a'')],
        OpenTagEnd ''child'' True False, EndElement ''child'',
        CloseTag ''root'', EndElement ''root'']"
    by (simp_all add: xmlnsBound_def defaultDeclaration_def eval_defs cong: andThen_weak_cong)
  have e: "fst (serializeNode acceptAll True xmlnsElement False False initial) = Inr ()"
    "events (snd (serializeNode acceptAll True xmlnsElement False False initial))
     = [BeginElement ''q:foo'', OpenTagBegin ''q:foo'',
        AttributesEv [(None, Some ''xmlns'', ''q'', XMLNS),
                      (Some XMLNS, Some ''q'', ''xmlns'', XMLNS)],
        OpenTagEnd ''q:foo'' True False, EndElement ''q:foo'']"
    by (simp_all add: xmlnsElement_def defaultDeclaration_def eval_defs cong: andThen_weak_cong)
  show ?thesis using a b c d e by (intro conjI)
qed

section \<open>Main results: unsupported nodes\<close>



section \<open>Main results: comments\<close>

text \<open>
  Claim C7. Serializing a comment raises the error exactly when well-formedness is
  required and the data contains \<^verbatim>\<open>--\<close>, ends with \<^verbatim>\<open>-\<close> or contains a character that is not
  legal; then nothing is emitted. In every other case the data is emitted unchanged as a
  comment event.
\<close>

theorem comment_serialization:
  "fst (serializeNode V hasNamespaces (Comment d) rwf nde s) =
     (if rwf \<and> (includes_str ''--'' d \<or> endsWithChar CHR ''-'' d \<or> \<not> xml_isLegalChar V d)
      then Inl (InvalidStateError CommentInvalid) else Inr ())
   \<and> events (snd (serializeNode V hasNamespaces (Comment d) rwf nde s)) =
     (if rwf \<and> (includes_str ''--'' d \<or> endsWithChar CHR ''-'' d \<or> \<not> xml_isLegalChar V d)
      then events s else events s @ [CommentEv d])"
  by (auto simp add: serializeNode_def serializeComment_def)

text \<open>
  The comment \<^verbatim>\<open>a--b\<close> with and without required well-formedness.
\<close>

theorem comment_serialization_witness:
  "fst (serializeNode acceptAll True (Comment ''a--b'') True False initial)
     = Inl (InvalidStateError CommentInvalid)
   \<and> events (snd (serializeNode acceptAll True (Comment ''a--b'') True False initial)) = []
   \<and> fst (serializeNode acceptAll True (Comment ''a--b'') False False initial) = Inr ()
   \<and> events (snd (serializeNode acceptAll True (Comment ''a--b'') False False initial))
     = [CommentEv ''a--b'']"
  using comment_serialization [of acceptAll True "''a--b''" True False initial]
        comment_serialization [of acceptAll True "''a--b''" False False initial]
  by (simp add: initial_def)

section \<open>Main results: escaping without double encoding\<close>

text \<open>
  Claim C8. Without double encoding, the attribute value \<^verbatim>\<open>a>b\<close> is returned as it is,
  whereas the default mode escapes the \<^verbatim>\<open>>\<close>: the branch of
  \<^verbatim>\<open>_serializeAttributeValue\<close> for this mode does not replace \<^verbatim>\<open>>\<close>.
\<close>

theorem attribute_value_greater_than:
  "serializeAttributeValue V (Some ''a>b'') False True = Inr ''a>b''
   \<and> serializeAttributeValue V (Some ''a>b'') False False = Inr ''a&gt;b''"
  by (simp add: serializeAttributeValue_def escapeAttributeValue_def replaceAll_def)

text \<open>
  What \<^verbatim>\<open>_serializeAttributeValue\<close> does without double encoding, as one pass over the
  value: an ampersand is kept when it starts an entity reference and becomes \<^verbatim>\<open>&amp;\<close>
  otherwise; \<^verbatim>\<open><\<close>, the double quote, tab, line feed and carriage return are replaced;
  every other character, \<^verbatim>\<open>>\<close> among them, is kept.
\<close>

theorem attribute_value_one_pass:
  "escapeAttributeValue True v =
     escapePass (\<lambda>c. if c = CHR ''<'' then ''&lt;''
                      else if c = CHR 0x22 then ''&quot;''
                      else if c = CHR 0x09 then ''&#x9;''
                      else if c = CHR 0x0A then ''&#xA;''
                      else if c = CHR 0x0D then ''&#xD;''
                      else [c]) v"
proof -
  have f: "(\<lambda>x. replaceAll CHR 0x0D ''&#xD;'' (replaceAll CHR 0x0A ''&#xA;''
             (replaceAll CHR 0x09 ''&#x9;'' (replaceAll CHR 0x22 ''&quot;''
               (replaceAll CHR ''<'' ''&lt;'' [x])))))
        = (\<lambda>c. if c = CHR ''<'' then ''&lt;''
                      else if c = CHR 0x22 then ''&quot;''
                      else if c = CHR 0x09 then ''&#x9;''
                      else if c = CHR 0x0A then ''&#xA;''
                      else if c = CHR 0x0D then ''&#xD;''
                      else [c])"
    by (rule ext) (simp add: replaceAll_def)
  show ?thesis
    unfolding escapeAttributeValue_def if_True replaceAmp_pass
    by (simp only: replaceAll_pass f)
qed

text \<open>
  What \<^verbatim>\<open>_serializeText\<close> does without double encoding, as one pass over the data: an
  ampersand is kept when it starts an entity reference and becomes \<^verbatim>\<open>&amp;\<close> otherwise;
  \<^verbatim>\<open><\<close>, \<^verbatim>\<open>>\<close> and carriage return are replaced; every other character is kept.
\<close>

theorem text_one_pass:
  "escapeText True v =
     escapePass (\<lambda>c. if c = CHR ''<'' then ''&lt;''
                      else if c = CHR ''>'' then ''&gt;''
                      else if c = CHR 0x0D then ''&#xD;''
                      else [c]) v"
proof -
  have f: "(\<lambda>x. replaceAll CHR 0x0D ''&#xD;''
             (replaceAll CHR ''>'' ''&gt;'' (replaceAll CHR ''<'' ''&lt;'' [x])))
        = (\<lambda>c. if c = CHR ''<'' then ''&lt;''
                      else if c = CHR ''>'' then ''&gt;''
                      else if c = CHR 0x0D then ''&#xD;''
                      else [c])"
    by (rule ext) (simp add: replaceAll_def)
  show ?thesis
    unfolding escapeText_def if_True replaceAmp_pass
    by (simp only: replaceAll_pass f)
qed

section \<open>Main results: elements without children\<close>

text \<open>
  Claim C9. For an element without children whose namespace is not the HTML namespace,
  whenever the serialization of the element returns, it has added five events: begin
  element, open tag begin, attributes, open tag end with the self-closing flag set, and
  end element directly after it; there is no close tag event. This holds on both paths.
  When well-formedness is not required the serialization does return.
\<close>

theorem self_closing:
  "namespaceURI e \<noteq> Some HTML \<Longrightarrow>
     (fst (serializeNodeNS V rwf nde (Element e []) ns pm s) = Inr () \<longrightarrow>
        (\<exists>q attrs. events (snd (serializeNodeNS V rwf nde (Element e []) ns pm s))
           = events s @ [BeginElement q, OpenTagBegin q, AttributesEv attrs,
                         OpenTagEnd q True False, EndElement q]))
   \<and> (fst (serializeNode' V rwf nde (Element e []) s) = Inr () \<longrightarrow>
        (\<exists>attrs. events (snd (serializeNode' V rwf nde (Element e []) s))
           = events s @ [BeginElement (localName e), OpenTagBegin (localName e),
                         AttributesEv attrs, OpenTagEnd (localName e) True False,
                         EndElement (localName e)]))
   \<and> (\<not> rwf \<longrightarrow> fst (serializeNodeNS V rwf nde (Element e []) ns pm s) = Inr ()
                \<and> fst (serializeNode' V rwf nde (Element e []) s) = Inr ())"
proof (intro conjI impI)
  assume html: "namespaceURI e \<noteq> Some HTML"
  assume fin: "fst (serializeNodeNS V rwf nde (Element e []) ns pm s) = Inr ()"
  from fin obtain opened where opened: "fst (openElementNS V e ns pm rwf nde s) = Inr opened"
    and eq: "serializeNodeNS V rwf nde (Element e []) ns pm s
               = ok () (emit (EndElement (fst opened))
                   (emit (OpenTagEnd (fst opened) True False)
                      (snd (openElementNS V e ns pm rwf nde s))))"
    unfolding serializeNodeNS_leaf [OF html] by (rule andThen_InrE)
  from openElementNS_events [OF opened] obtain attrs where
    "events (snd (openElementNS V e ns pm rwf nde s))
       = events s @ [BeginElement (fst opened), OpenTagBegin (fst opened), AttributesEv attrs]"
    by blast
  then show "\<exists>q attrs. events (snd (serializeNodeNS V rwf nde (Element e []) ns pm s))
           = events s @ [BeginElement q, OpenTagBegin q, AttributesEv attrs,
                         OpenTagEnd q True False, EndElement q]"
    unfolding eq by simp
next
  assume fin: "fst (serializeNode' V rwf nde (Element e []) s) = Inr ()"
  from fin obtain u where opened: "fst (openElement V e rwf nde s) = Inr u"
    and eq: "serializeNode' V rwf nde (Element e []) s
               = ok () (emit (EndElement (localName e))
                   (emit (OpenTagEnd (localName e) True False) (snd (openElement V e rwf nde s))))"
    unfolding serializeNode'_leaf by (rule andThen_InrE)
  from openElement_events [OF opened] show
    "\<exists>attrs. events (snd (serializeNode' V rwf nde (Element e []) s))
           = events s @ [BeginElement (localName e), OpenTagBegin (localName e),
                         AttributesEv attrs, OpenTagEnd (localName e) True False,
                         EndElement (localName e)]"
    unfolding eq by auto
next
  assume html: "namespaceURI e \<noteq> Some HTML" and "\<not> rwf"
  then have rwf: "rwf = False" by simp
  have "succeeds (serializeNodeNS V False nde (Element e []) ns pm s)"
    unfolding serializeNodeNS_leaf [OF html]
    by (auto intro!: succeeds_andThen openElementNS_lenient)
  then show "fst (serializeNodeNS V rwf nde (Element e []) ns pm s) = Inr ()"
    unfolding rwf by (rule succeeds_unit)
next
  assume "\<not> rwf"
  then have rwf: "rwf = False" by simp
  show "fst (serializeNode' V rwf nde (Element e []) s) = Inr ()"
    unfolding rwf serializeNode'_leaf by (simp add: openElement_lenient)
qed

text \<open>
  The element \<^verbatim>\<open>br\<close> in no namespace.
\<close>

theorem self_closing_witness:
  "namespaceURI \<lparr>localName = ''br'', prefix = None, namespaceURI = None, attributes = []\<rparr>
     \<noteq> Some HTML
   \<and> fst (serializeNodeNS acceptAll False False
        (Element \<lparr>localName = ''br'', prefix = None, namespaceURI = None, attributes = []\<rparr> [])
        None 0 (initial\<lparr>heap := [pm_set ''xml'' (Some XML) []]\<rparr>)) = Inr ()
   \<and> events (snd (serializeNodeNS acceptAll False False
        (Element \<lparr>localName = ''br'', prefix = None, namespaceURI = None, attributes = []\<rparr> [])
        None 0 (initial\<lparr>heap := [pm_set ''xml'' (Some XML) []]\<rparr>)))
     = [BeginElement ''br'', OpenTagBegin ''br'', AttributesEv [], OpenTagEnd ''br'' True False,
        EndElement ''br'']"
proof -
  let ?e = "\<lparr>localName = ''br'', prefix = None, namespaceURI = None, attributes = []\<rparr>"
  let ?S = "initial\<lparr>heap := [pm_set ''xml'' (Some XML) []]\<rparr>"
  have h: "namespaceURI ?e \<noteq> Some HTML" by simp
  have a: "fst (serializeNodeNS acceptAll False False (Element ?e []) None 0 ?S) = Inr ()"
    using self_closing [OF h, of acceptAll False False None 0 ?S] by simp
  have b: "events (snd (serializeNodeNS acceptAll False False (Element ?e []) None 0 ?S))
     = [BeginElement ''br'', OpenTagBegin ''br'', AttributesEv [], OpenTagEnd ''br'' True False,
        EndElement ''br'']"
    by (simp add: eval_defs cong: andThen_weak_cong)
  show ?thesis using h a b by (intro conjI)
qed

section \<open>Main results: creating a processing instruction\<close>

text \<open>
  Claim C10. \<^verbatim>\<open>createProcessingInstruction(target, data)\<close> throws
  \<^verbatim>\<open>InvalidCharacterError\<close> whenever the target does not match the Name production and
  whenever the data does not contain \<^verbatim>\<open>?>\<close>; it returns a new processing instruction
  exactly when the target matches and the data contains \<^verbatim>\<open>?>\<close>.
\<close>

theorem createProcessingInstruction_result:
  "createProcessingInstruction matchesName target data =
     (if matchesName target \<and> includes_str ''?>'' data
      then Inr (ProcessingInstruction target data)
      else Inl InvalidCharacterError)"
  by (simp add: createProcessingInstruction_def)

text \<open>
  A target that matches with data that contains \<^verbatim>\<open>?>\<close>, the same target with data that
  does not, and a target that does not match.
\<close>

theorem createProcessingInstruction_result_witness:
  "createProcessingInstruction (\<lambda>t. t = ''pi'') ''pi'' ''a?>b'' = Inr (ProcessingInstruction ''pi'' ''a?>b'')
   \<and> createProcessingInstruction (\<lambda>t. t = ''pi'') ''pi'' ''ab'' = Inl InvalidCharacterError
   \<and> createProcessingInstruction (\<lambda>t. t = ''pi'') ''1'' ''a?>b'' = Inl InvalidCharacterError"
  using createProcessingInstruction_result [of "\<lambda>t. t = ''pi''" "''pi''" "''a?>b''"]
        createProcessingInstruction_result [of "\<lambda>t. t = ''pi''" "''pi''" "''ab''"]
        createProcessingInstruction_result [of "\<lambda>t. t = ''pi''" "''1''" "''a?>b''"]
  by simp
end
